theory Spec2Isabelle
  imports Main "HOL-Library.Char_ord"
begin

section \<open>Strings of the host language\<close>

text \<open>
  A JavaScript string is a sequence of UTF-16 code units. The model uses HOL strings and
  reads every \<^typ>\<open>char\<close> as the code unit of the same number, so it covers the documents
  whose text lies in the range U+0000 .. U+00FF. On that range the character classes
  below, \<open>trim\<close> and \<open>toLowerCase\<close> are the ones of ECMAScript (lower-casing never leaves
  the range).
\<close>

abbreviation BSL :: char where \<comment> \<open>the backslash\<close>
  "BSL \<equiv> CHR 0x5C"

definition in_range :: "char \<Rightarrow> char \<Rightarrow> char \<Rightarrow> bool" where
  \<comment> \<open>the order of characters is the order of their code units\<close>
  "in_range lo hi c = (lo \<le> c \<and> c \<le> hi)"

definition is_upper :: "char \<Rightarrow> bool" where \<comment> \<open>\<open>[A-Z]\<close>\<close>
  "is_upper c = in_range CHR ''A'' CHR ''Z'' c"

definition is_lower :: "char \<Rightarrow> bool" where \<comment> \<open>\<open>[a-z]\<close>\<close>
  "is_lower c = in_range CHR ''a'' CHR ''z'' c"

definition is_digit :: "char \<Rightarrow> bool" where \<comment> \<open>\<open>\d\<close>\<close>
  "is_digit c = in_range CHR ''0'' CHR ''9'' c"

definition is_word :: "char \<Rightarrow> bool" where \<comment> \<open>\<open>\w\<close>, that is \<open>[A-Za-z0-9_]\<close>\<close>
  "is_word c = (is_upper c \<or> is_lower c \<or> is_digit c \<or> c = CHR ''_'')"

definition is_line_terminator :: "char \<Rightarrow> bool" where \<comment> \<open>LF and CR\<close>
  "is_line_terminator c = (c = CHR 0x0A \<or> c = CHR 0x0D)"

definition is_space :: "char \<Rightarrow> bool" where
  \<comment> \<open>\<open>\s\<close>: TAB, LF, VT, FF, CR, SPACE and NBSP\<close>
  "is_space c = (in_range CHR 0x09 CHR 0x0D c \<or> c = CHR 0x20 \<or> c = CHR 0xA0)"

definition is_blank :: "char \<Rightarrow> bool" where \<comment> \<open>\<open>[ \t]\<close>\<close>
  "is_blank c = (c = CHR 0x20 \<or> c = CHR 0x09)"

definition is_dot :: "char \<Rightarrow> bool" where \<comment> \<open>\<open>.\<close> without the \<open>s\<close> flag\<close>
  "is_dot c = (\<not> is_line_terminator c)"

definition is_sentence_end :: "char \<Rightarrow> bool" where \<comment> \<open>\<open>[.!?]\<close>\<close>
  "is_sentence_end c = (c = CHR ''.'' \<or> c = CHR ''!'' \<or> c = CHR ''?'')"

definition lower_char :: "char \<Rightarrow> char" where
  \<comment> \<open>A-Z, and the capital letters U+00C0 .. U+00DE but the sign U+00D7\<close>
  "lower_char c =
     (if is_upper c \<or> (in_range CHR 0xC0 CHR 0xDE c \<and> c \<noteq> CHR 0xD7)
      then char_of (of_char c + (32::nat)) else c)"

definition toLowerCase :: "string \<Rightarrow> string" where
  "toLowerCase s = map lower_char s"

definition trim :: "string \<Rightarrow> string" where
  "trim s = rev (dropWhile is_space (rev (dropWhile is_space s)))"

fun startsWith :: "string \<Rightarrow> string \<Rightarrow> bool" where
  "startsWith s [] = True"
| "startsWith [] (p # ps) = False"
| "startsWith (c # cs) (p # ps) = (c = p \<and> startsWith cs ps)"

definition endsWith :: "string \<Rightarrow> string \<Rightarrow> bool" where
  "endsWith s p = startsWith (rev s) (rev p)"

fun includes_str :: "string \<Rightarrow> string \<Rightarrow> bool" where
  "includes_str [] p = (p = [])"
| "includes_str (c # cs) p = (startsWith (c # cs) p \<or> includes_str cs p)"

fun join :: "string \<Rightarrow> string list \<Rightarrow> string" where
  "join sep [] = []"
| "join sep [x] = x"
| "join sep (x # y # ys) = x @ sep @ join sep (y # ys)"

fun split_on :: "char \<Rightarrow> string \<Rightarrow> string list" where
  \<comment> \<open>\<open>s.split(c)\<close> for a one-character separator\<close>
  "split_on sep [] = [[]]"
| "split_on sep (c # cs) =
     (if c = sep then [] # split_on sep cs
      else (case split_on sep cs of [] \<Rightarrow> [[c]] | p # ps \<Rightarrow> (c # p) # ps))"

section \<open>Regular expressions\<close>

text \<open>
  The regular expressions of the source are kept as syntax trees and run by a
  backtracking matcher in the style of the ECMAScript definition: a matcher takes a
  state and a continuation and answers with the first success. A greedy quantifier
  first tries one more repetition and falls back to the continuation, an alternative
  tries its left branch first. Every quantifier of the source is applied to an atom
  that matches exactly one character, so \<open>Rep\<close> takes a character class. A state is the
  character before the position (for \<open>^\<close> with the \<open>m\<close> flag), the text from the position
  on and the capture groups.
\<close>

datatype regex =
    Chr char
  | Cls "char \<Rightarrow> bool"
  | Rep nat "nat option" "char \<Rightarrow> bool"
  | Then regex regex
  | Alt regex regex
  | Grp nat regex
  | Bol
  | Eol
  | Eps

type_synonym captures = "string option list"
type_synonym mstate = "char option \<times> string \<times> captures"

definition Star :: "(char \<Rightarrow> bool) \<Rightarrow> regex" where "Star P = Rep 0 None P"
definition Plus :: "(char \<Rightarrow> bool) \<Rightarrow> regex" where "Plus P = Rep 1 None P"

fun seqs :: "regex list \<Rightarrow> regex" where
  "seqs [] = Eps"
| "seqs [r] = r"
| "seqs (r # rs) = Then r (seqs rs)"

fun ngroups :: "regex \<Rightarrow> nat" where
  "ngroups (Then r1 r2) = ngroups r1 + ngroups r2"
| "ngroups (Alt r1 r2) = ngroups r1 + ngroups r2"
| "ngroups (Grp i r) = Suc (ngroups r)"
| "ngroups r = 0"

fun may_repeat :: "nat option \<Rightarrow> bool" where
  "may_repeat None = True"
| "may_repeat (Some m) = (0 < m)"

fun repeat :: "nat \<Rightarrow> nat option \<Rightarrow> (char \<Rightarrow> bool) \<Rightarrow> char option \<Rightarrow> string \<Rightarrow>
    (char option \<Rightarrow> string \<Rightarrow> 'a option) \<Rightarrow> 'a option" where
  \<comment> \<open>\<open>mn\<close> repetitions are still due, at most \<open>mx\<close> are allowed\<close>
  "repeat mn mx P prev [] k = (if mn = 0 then k prev [] else None)"
| "repeat mn mx P prev (x # xs) k =
     (if P x \<and> may_repeat mx
      then (case repeat (mn - 1) (map_option (\<lambda>m. m - 1) mx) P (Some x) xs k of
              Some y \<Rightarrow> Some y
            | None \<Rightarrow> if mn = 0 then k prev (x # xs) else None)
      else if mn = 0 then k prev (x # xs) else None)"

fun rmatch :: "bool \<Rightarrow> regex \<Rightarrow> mstate \<Rightarrow> (mstate \<Rightarrow> 'a option) \<Rightarrow> 'a option" where
  "rmatch ml (Chr c) (prev, rest, caps) k =
     (case rest of [] \<Rightarrow> None | x # xs \<Rightarrow> if x = c then k (Some x, xs, caps) else None)"
| "rmatch ml (Cls P) (prev, rest, caps) k =
     (case rest of [] \<Rightarrow> None | x # xs \<Rightarrow> if P x then k (Some x, xs, caps) else None)"
| "rmatch ml (Rep mn mx P) (prev, rest, caps) k =
     repeat mn mx P prev rest (\<lambda>prev' rest'. k (prev', rest', caps))"
| "rmatch ml (Then r1 r2) st k = rmatch ml r1 st (\<lambda>st'. rmatch ml r2 st' k)"
| "rmatch ml (Alt r1 r2) st k =
     (case rmatch ml r1 st k of Some y \<Rightarrow> Some y | None \<Rightarrow> rmatch ml r2 st k)"
| "rmatch ml (Grp i r) (prev, rest, caps) k =
     rmatch ml r (prev, rest, caps)
       (\<lambda>(prev', rest', caps').
          k (prev', rest', caps'[i - 1 := Some (take (length rest - length rest') rest)]))"
| "rmatch ml Bol (prev, rest, caps) k =
     (case prev of None \<Rightarrow> k (prev, rest, caps)
      | Some x \<Rightarrow> if ml \<and> is_line_terminator x then k (prev, rest, caps) else None)"
| "rmatch ml Eol (prev, rest, caps) k =
     (case rest of [] \<Rightarrow> k (prev, rest, caps)
      | x # xs \<Rightarrow> if ml \<and> is_line_terminator x then k (prev, rest, caps) else None)"
| "rmatch ml Eps st k = k st"

definition exec_at :: "bool \<Rightarrow> regex \<Rightarrow> char option \<Rightarrow> string \<Rightarrow> (nat \<times> captures) option" where
  \<comment> \<open>the match that starts at the current position: its length and its groups\<close>
  "exec_at ml r prev s =
     (case rmatch ml r (prev, s, replicate (ngroups r) None) Some of
        None \<Rightarrow> None
      | Some (prev', rest', caps') \<Rightarrow> Some (length s - length rest', caps'))"

fun search_from :: "bool \<Rightarrow> regex \<Rightarrow> char option \<Rightarrow> string \<Rightarrow> (string \<times> captures) option" where
  \<comment> \<open>the first match at or after the current position: its text and its groups\<close>
  "search_from ml r prev [] =
     (case exec_at ml r prev [] of None \<Rightarrow> None | Some (n, caps) \<Rightarrow> Some ([], caps))"
| "search_from ml r prev (c # cs) =
     (case exec_at ml r prev (c # cs) of
        None \<Rightarrow> search_from ml r (Some c) cs
      | Some (n, caps) \<Rightarrow> Some (take n (c # cs), caps))"

definition test :: "regex \<Rightarrow> string \<Rightarrow> bool" where \<comment> \<open>\<open>re.test(s)\<close>\<close>
  "test r s = (search_from False r None s \<noteq> None)"

definition group :: "captures \<Rightarrow> nat \<Rightarrow> string" where
  "group caps i = (if i - 1 < length caps then (case caps ! (i - 1) of None \<Rightarrow> [] | Some g \<Rightarrow> g) else [])"

fun digit_of :: "char \<Rightarrow> nat" where
  "digit_of c = of_char c - 48"

fun expand :: "string \<Rightarrow> string \<Rightarrow> captures \<Rightarrow> string" where
  \<comment> \<open>a replacement template: \<open>$$\<close>, \<open>$&\<close> and \<open>$1\<close> .. \<open>$9\<close>\<close>
  "expand [] m caps = []"
| "expand [c] m caps = [c]"
| "expand (c # d # t) m caps =
     (if c \<noteq> CHR ''$'' then c # expand (d # t) m caps
      else if d = CHR ''$'' then CHR ''$'' # expand t m caps
      else if d = CHR ''&'' then m @ expand t m caps
      else if is_digit d \<and> 1 \<le> digit_of d \<and> digit_of d \<le> length caps
           then group caps (digit_of d) @ expand t m caps
      else c # expand (d # t) m caps)"

lemma exec_at_le: "exec_at ml r prev s = Some (n, caps) \<Longrightarrow> n \<le> length s"
  by (auto simp: exec_at_def split: option.splits)

definition last_of :: "char option \<Rightarrow> string \<Rightarrow> char option" where
  \<comment> \<open>the character before the position that follows the text \<open>m\<close>\<close>
  "last_of prev m = (if m = [] then prev else Some (last m))"

function replace_with :: "bool \<Rightarrow> regex \<Rightarrow> (string \<Rightarrow> captures \<Rightarrow> string) \<Rightarrow> char option \<Rightarrow> string \<Rightarrow> string" where
  "replace_with ml r f prev s =
     (case exec_at ml r prev s of
        None \<Rightarrow> (case s of [] \<Rightarrow> [] | c # cs \<Rightarrow> c # replace_with ml r f (Some c) cs)
      | Some (n, caps) \<Rightarrow>
          if n = 0
          then f [] caps @ (case s of [] \<Rightarrow> [] | c # cs \<Rightarrow> c # replace_with ml r f (Some c) cs)
          else f (take n s) caps @ replace_with ml r f (last_of prev (take n s)) (drop n s))"
  by pat_completeness auto
termination
  by (relation "measure (\<lambda>(ml, r, f, prev, s). length s)") (auto dest: exec_at_le)

declare replace_with.simps [simp del]

definition replace_all :: "regex \<Rightarrow> string \<Rightarrow> string \<Rightarrow> string" where
  \<comment> \<open>\<open>s.replace(/r/g, template)\<close>\<close>
  "replace_all r template s = replace_with False r (expand template) None s"

section \<open>Errors\<close>

text \<open>
  The only exception the extraction code can raise is a \<open>TypeError\<close>: reading a property
  of \<open>undefined\<close> or \<open>null\<close>, or the \<open>URL\<close> constructor refusing its argument.
\<close>

datatype error = TypeError

definition bind_err :: "error + 'a \<Rightarrow> ('a \<Rightarrow> error + 'b) \<Rightarrow> error + 'b" where
  "bind_err m f = (case m of Inl e \<Rightarrow> Inl e | Inr x \<Rightarrow> f x)"

lemma bind_err_cong [fundef_cong]:
  "m = m' \<Longrightarrow> (\<And>x. m' = Inr x \<Longrightarrow> f x = f' x) \<Longrightarrow> bind_err m f = bind_err m' f'"
  by (cases m') (simp_all add: bind_err_def)

lemma bind_err_simps [simp]:
  "bind_err (Inl e) f = Inl e"
  "bind_err (Inr x) f = f x"
  by (simp_all add: bind_err_def)

section \<open>The document tree\<close>

text \<open>
  An element carries its tag name, its attributes in source order and the three
  properties of its computed style that the code reads (\<open>window.getComputedStyle\<close> is
  the host's; the tree is a snapshot of it). Text and comment nodes carry their data.
\<close>

record element =
  tagName :: string
  attributes :: "(string \<times> string) list"
  display :: string
  visibility :: string
  opacity :: string

datatype node =
    Text string
  | Comment string
  | Element element "node list"

definition getAttribute :: "element \<Rightarrow> string \<Rightarrow> string option" where
  "getAttribute e name = map_of (attributes e) name"

definition hasAttribute :: "element \<Rightarrow> string \<Rightarrow> bool" where
  "hasAttribute e name = (getAttribute e name \<noteq> None)"

definition className :: "element \<Rightarrow> string" where
  "className e = (case getAttribute e ''class'' of None \<Rightarrow> [] | Some v \<Rightarrow> v)"

definition elem_id :: "element \<Rightarrow> string" where \<comment> \<open>\<open>node.id\<close>\<close>
  "elem_id e = (case getAttribute e ''id'' of None \<Rightarrow> [] | Some v \<Rightarrow> v)"

definition is_ascii_ws :: "char \<Rightarrow> bool" where \<comment> \<open>TAB, LF, FF, CR, SPACE\<close>
  "is_ascii_ws c = (c = CHR 0x09 \<or> c = CHR 0x0A \<or> c = CHR 0x0C \<or> c = CHR 0x0D \<or> c = CHR 0x20)"

fun tokens :: "string \<Rightarrow> string \<Rightarrow> string list" where
  \<comment> \<open>the ordered-set parser of the DOM: the whitespace-separated tokens\<close>
  "tokens cur [] = (if cur = [] then [] else [rev cur])"
| "tokens cur (c # cs) =
     (if is_ascii_ws c then (if cur = [] then tokens [] cs else rev cur # tokens [] cs)
      else tokens (c # cur) cs)"

definition classList :: "element \<Rightarrow> string list" where
  \<comment> \<open>each token once, in the order of first occurrence\<close>
  "classList e = rev (remdups (rev (tokens [] (className e))))"

definition lowerTag :: "element \<Rightarrow> string" where \<comment> \<open>\<open>node.tagName.toLowerCase()\<close>\<close>
  "lowerTag e = toLowerCase (tagName e)"

fun is_element :: "node \<Rightarrow> bool" where
  "is_element (Element e cs) = True"
| "is_element n = False"

fun descendantText :: "node \<Rightarrow> string" where
  "descendantText (Text s) = s"
| "descendantText (Comment s) = []"
| "descendantText (Element e cs) = concat (map descendantText cs)"

fun textContent :: "node \<Rightarrow> string" where
  "textContent (Text s) = s"
| "textContent (Comment s) = s"
| "textContent (Element e cs) = concat (map descendantText cs)"

section \<open>Math converter\<close>

definition operatorTable :: "(nat list \<times> string) list" where
  \<comment> \<open>the glyph of each entry as its code units; only U+00B1 can occur in the model's text\<close>
  "operatorTable =
     [([0x2212], ''-''), ([0x00B1], BSL # ''pm''), ([0x2211], BSL # ''sum''), ([0x222B], BSL # ''int''),
      ([0x221E], BSL # ''infty''), ([0x03B1], BSL # ''alpha''), ([0x03B2], BSL # ''beta''),
      ([0x03B3], BSL # ''gamma''), ([0x03B4], BSL # ''delta''), ([0x03B5], BSL # ''epsilon''),
      ([0x03C0], BSL # ''pi''), ([0x03C3], BSL # ''sigma''), ([0x03B8], BSL # ''theta''),
      ([0x03BB], BSL # ''lambda''), ([0x03BC], BSL # ''mu''), ([0x2264], BSL # ''leq''),
      ([0x2265], BSL # ''geq''), ([0x2260], BSL # ''neq''), ([0x2208], BSL # ''in''),
      ([0x2205], BSL # ''emptyset'')]"

definition code_units :: "string \<Rightarrow> nat list" where
  "code_units s = map of_char s"

definition operatorLaTeX :: "string \<Rightarrow> string" where
  "operatorLaTeX operator =
     (case map_of operatorTable (code_units operator) of None \<Rightarrow> operator | Some l \<Rightarrow> l)"

definition overMarkup :: "string \<Rightarrow> string \<Rightarrow> string" where
  \<comment> \<open>the \<open>mover\<close> case; the hat glyph U+02C6 is outside the model's text\<close>
  "overMarkup over baseOver =
     (if code_units over = [0xAF] then BSL # ''overline{'' @ baseOver @ ''}''
      else if over = ''^'' \<or> code_units over = [0x02C6] then BSL # ''hat{'' @ baseOver @ ''}''
      else BSL # ''overset{'' @ over @ ''}{'' @ baseOver @ ''}'')"

definition children :: "node list \<Rightarrow> node list" where
  \<comment> \<open>\<open>node.children\<close>: the element children among \<open>node.childNodes\<close>\<close>
  "children cs = filter is_element cs"

fun mathMLToLaTeX :: "bool \<Rightarrow> node \<Rightarrow> error + string"
  and mathChild :: "bool \<Rightarrow> node list \<Rightarrow> nat \<Rightarrow> error + string"
  and mathChildren :: "bool \<Rightarrow> node list \<Rightarrow> error + string list"
where
  "mathMLToLaTeX notionMode (Text s) = Inl TypeError"
| "mathMLToLaTeX notionMode (Comment s) = Inl TypeError"
| "mathMLToLaTeX notionMode (Element e cs) =
     (let tag = lowerTag e;
          joined = bind_err (mathChildren notionMode cs) (\<lambda>parts. Inr (join '' '' parts))
      in
      if tag = ''mi'' then Inr (trim (textContent (Element e cs)))
      else if tag = ''mn'' then Inr (trim (textContent (Element e cs)))
      else if tag = ''mo'' then Inr (operatorLaTeX (trim (textContent (Element e cs))))
      else if tag = ''msup'' then
        bind_err (mathChild notionMode cs 0) (\<lambda>base.
        bind_err (mathChild notionMode cs 1) (\<lambda>exponent.
        Inr (base @ ''^{'' @ exponent @ ''}'')))
      else if tag = ''msub'' then
        bind_err (mathChild notionMode cs 0) (\<lambda>subBase.
        bind_err (mathChild notionMode cs 1) (\<lambda>subIndex.
        Inr (subBase @ ''_{'' @ subIndex @ ''}'')))
      else if tag = ''mfrac'' then
        bind_err (mathChild notionMode cs 0) (\<lambda>numerator.
        bind_err (mathChild notionMode cs 1) (\<lambda>denominator.
        Inr (BSL # ''frac{'' @ numerator @ ''}{'' @ denominator @ ''}'')))
      else if tag = ''msqrt'' then
        bind_err (mathChild notionMode cs 0) (\<lambda>radicand.
        Inr (BSL # ''sqrt{'' @ radicand @ ''}''))
      else if tag = ''mroot'' then
        (if length (children cs) \<ge> 2 then
           bind_err (mathChild notionMode cs 0) (\<lambda>radicandRoot.
           bind_err (mathChild notionMode cs 1) (\<lambda>index.
           Inr (BSL # ''sqrt['' @ index @ '']{'' @ radicandRoot @ ''}'')))
         else joined)
      else if tag = ''mrow'' then joined
      else if tag = ''msubsup'' then
        (if length (children cs) \<ge> 3 then
           bind_err (mathChild notionMode cs 0) (\<lambda>baseSubsup.
           bind_err (mathChild notionMode cs 1) (\<lambda>subscript.
           bind_err (mathChild notionMode cs 2) (\<lambda>superscript.
           Inr (baseSubsup @ ''_{'' @ subscript @ ''}^{'' @ superscript @ ''}''))))
         else joined)
      else if tag = ''mover'' then
        (if length (children cs) \<ge> 2 then
           bind_err (mathChild notionMode cs 0) (\<lambda>baseOver.
           bind_err (mathChild notionMode cs 1) (\<lambda>over.
           Inr (overMarkup over baseOver)))
         else joined)
      else if tag = ''munder'' then
        (if length (children cs) \<ge> 2 then
           bind_err (mathChild notionMode cs 0) (\<lambda>baseUnder.
           bind_err (mathChild notionMode cs 1) (\<lambda>under.
           Inr (BSL # ''underset{'' @ under @ ''}{'' @ baseUnder @ ''}'')))
         else joined)
      else if tag = ''math'' then
        bind_err joined (\<lambda>content.
          if getAttribute e ''display'' = Some ''block''
          then Inr (if notionMode then ''\<newline>\<newline>'' @ content @ ''\<newline>\<newline>''
                    else ''$$'' @ content @ ''$$'')
          else Inr (if notionMode then content else ''$'' @ content @ ''$''))
      else joined)"
| "mathChild notionMode [] i = Inl TypeError"
| "mathChild notionMode (c # cs) i =
     (if is_element c
      then (if i = 0 then mathMLToLaTeX notionMode c else mathChild notionMode cs (i - 1))
      else mathChild notionMode cs i)"
| "mathChildren notionMode [] = Inr []"
| "mathChildren notionMode (c # cs) =
     (if is_element c
      then bind_err (mathMLToLaTeX notionMode c) (\<lambda>x.
           bind_err (mathChildren notionMode cs) (\<lambda>xs. Inr (x # xs)))
      else mathChildren notionMode cs)"

text \<open>
  \<open>mathChild notionMode cs i\<close> is \<open>mathMLToLaTeX(mathMLNode.children[i])\<close>: where the
  element has no such child the argument is \<open>undefined\<close>, and reading its \<open>tagName\<close>
  raises. \<open>mathChildren\<close> is \<open>Array.from(mathMLNode.children).map(mathMLToLaTeX)\<close>.
\<close>

section \<open>Content-relevance filter\<close>

definition skipTags :: "string list" where
  "skipTags = [''script'', ''style'', ''noscript'', ''head'', ''meta'', ''link'', ''title'']"

definition skipInteractive :: "string list" where
  "skipInteractive =
     [''nav'', ''menu'', ''button'', ''form'', ''input'', ''textarea'', ''select'', ''option'']"

definition skipClasses :: "string list" where
  "skipClasses =
     [''nav'', ''navigation'', ''menu'', ''header'', ''footer'', ''sidebar'', ''toolbar'',
      ''breadcrumb'', ''pagination'', ''filter'', ''search'', ''social'', ''share'',
      ''advertisement'', ''ad'', ''banner'', ''popup'', ''modal'', ''overlay'',
      ''comment-form'', ''login'', ''signup'', ''subscribe'', ''newsletter'',
      ''related'', ''recommended'', ''trending'', ''popular'', ''recent'',
      ''widget'', ''gadget'', ''plugin'', ''embed'', ''iframe'']"

definition githubSkipClasses :: "string list" where
  "githubSkipClasses =
     [''header'', ''footer'', ''subnav'', ''tabnav'', ''pagehead'', ''underline-nav'',
      ''filter-list'', ''menu-item'', ''btn'', ''button'', ''avatar'', ''label'',
      ''counter'', ''state'', ''timeline-comment-header'', ''js-'', ''hide-'',
      ''dropdown'', ''select-menu'', ''autocomplete'', ''suggester'', ''discussion-'',
      ''file-'', ''blob-'', ''diff-'', ''hunk-'', ''octicon'', ''tooltipped'',
      ''flash'', ''notice'', ''border'', ''Box'', ''pr-'', ''issue-'', ''reaction-'',
      ''details-'', ''ActionList'', ''SelectPanel'', ''Overlay'']"

definition matchesVocabulary :: "string list \<Rightarrow> element \<Rightarrow> bool" where
  "matchesVocabulary vocabulary e =
     list_ex (\<lambda>cls.
        list_ex (\<lambda>nodeClass. includes_str (toLowerCase nodeClass) cls) (classList e) \<or>
        includes_str (toLowerCase (elem_id e)) cls) vocabulary"

definition labelIncludes :: "element \<Rightarrow> string \<Rightarrow> bool" where
  \<comment> \<open>\<open>node.getAttribute('aria-label')?.includes(w)\<close>\<close>
  "labelIncludes e w =
     (case getAttribute e ''aria-label'' of None \<Rightarrow> False | Some v \<Rightarrow> includes_str v w)"

fun shouldSkipElement :: "node \<Rightarrow> bool" where
  "shouldSkipElement (Element e cs) =
     (if lowerTag e \<in> set skipTags then True
      else if lowerTag e \<in> set skipInteractive then True
      else if matchesVocabulary skipClasses e then True
      else if matchesVocabulary githubSkipClasses e then True
      else if hasAttribute e ''data-hotkey'' \<or> hasAttribute e ''data-menu-button'' \<or>
              hasAttribute e ''data-action'' \<or> hasAttribute e ''data-target'' \<or>
              labelIncludes e ''filter'' \<or> labelIncludes e ''sort'' \<or>
              labelIncludes e ''menu'' then True
      else if getAttribute e ''role'' = Some ''button'' \<or>
              getAttribute e ''role'' = Some ''menu'' \<or>
              getAttribute e ''role'' = Some ''menuitem'' \<or>
              getAttribute e ''role'' = Some ''navigation'' \<or>
              getAttribute e ''aria-hidden'' = Some ''true'' then True
      else if display e = ''none'' \<or> visibility e = ''hidden'' \<or> opacity e = ''0'' then True
      else False)"
| "shouldSkipElement n = False"

section \<open>Visible text of a subtree\<close>

definition blockTextTags :: "string list" where
  "blockTextTags =
     [''div'', ''p'', ''h1'', ''h2'', ''h3'', ''h4'', ''h5'', ''h6'',
      ''li'', ''td'', ''th'', ''section'', ''article'', ''aside'']"

fun getCleanTextContent :: "node \<Rightarrow> string"
  and cleanTextLoop :: "string \<Rightarrow> node list \<Rightarrow> string"
where
  "getCleanTextContent (Text s) = trim s"
| "getCleanTextContent (Comment s) = []"
| "getCleanTextContent (Element e cs) = cleanTextLoop [] cs"
| "cleanTextLoop text [] = text"
| "cleanTextLoop text (Text s # rest) = cleanTextLoop (text @ s) rest"
| "cleanTextLoop text (Comment s # rest) = cleanTextLoop text rest"
| "cleanTextLoop text (Element e cs # rest) =
     (if \<not> shouldSkipElement (Element e cs)
      then cleanTextLoop
             ((if lowerTag e \<in> set blockTextTags \<and> text \<noteq> [] \<and> \<not> endsWith text '' ''
               then text @ '' '' else text) @ getCleanTextContent (Element e cs)) rest
      else cleanTextLoop text rest)"


section \<open>Pattern matcher\<close>

definition re_command_braces :: regex where \<comment> \<open>\<open>/\\\w+\{[^}]*\}/\<close>\<close>
  "re_command_braces =
     seqs [Chr BSL, Plus is_word, Chr CHR ''{'', Star (\<lambda>c. c \<noteq> CHR ''}''), Chr CHR ''}'']"

definition re_sub_braces :: regex where \<comment> \<open>\<open>/\w+_\{[^}]*\}/\<close>\<close>
  "re_sub_braces =
     seqs [Plus is_word, Chr CHR ''_'', Chr CHR ''{'', Star (\<lambda>c. c \<noteq> CHR ''}''), Chr CHR ''}'']"

definition re_sup_braces :: regex where \<comment> \<open>\<open>/\w+\^\{[^}]*\}/\<close>\<close>
  "re_sup_braces =
     seqs [Plus is_word, Chr CHR ''^'', Chr CHR ''{'', Star (\<lambda>c. c \<noteq> CHR ''}''), Chr CHR ''}'']"

definition re_sub_simple :: regex where \<comment> \<open>\<open>/\w+_\w/\<close>\<close>
  "re_sub_simple = seqs [Plus is_word, Chr CHR ''_'', Cls is_word]"

definition re_sup_simple :: regex where \<comment> \<open>\<open>/\w+\^\w/\<close>\<close>
  "re_sup_simple = seqs [Plus is_word, Chr CHR ''^'', Cls is_word]"

definition re_command :: regex where \<comment> \<open>\<open>/\\\w+/\<close>\<close>
  "re_command = seqs [Chr BSL, Plus is_word]"

definition re_inline_math :: regex where \<comment> \<open>\<open>/\$[^$]+\$/\<close>\<close>
  "re_inline_math = seqs [Chr CHR ''$'', Plus (\<lambda>c. c \<noteq> CHR ''$''), Chr CHR ''$'']"

definition re_block_math :: regex where \<comment> \<open>\<open>/\$\$[^$]+\$\$/\<close>\<close>
  "re_block_math =
     seqs [Chr CHR ''$'', Chr CHR ''$'', Plus (\<lambda>c. c \<noteq> CHR ''$''), Chr CHR ''$'', Chr CHR ''$'']"

definition latexPatterns :: "regex list" where
  "latexPatterns =
     [re_command_braces, re_sub_braces, re_sup_braces, re_sub_simple, re_sup_simple,
      re_command, re_inline_math, re_block_math]"

definition containsLaTeX :: "string \<Rightarrow> bool" where
  "containsLaTeX text = list_ex (\<lambda>pattern. test pattern text) latexPatterns"

definition re_word_stars_caps :: regex where \<comment> \<open>\<open>/(\w+)\*\*([A-Z]+)/\<close>\<close>
  "re_word_stars_caps =
     seqs [Grp 1 (Plus is_word), Chr CHR ''*'', Chr CHR ''*'', Grp 2 (Plus is_upper)]"

definition re_word_stars_word :: regex where \<comment> \<open>\<open>/(\w+)\*\*(\w+)/\<close>\<close>
  "re_word_stars_word =
     seqs [Grp 1 (Plus is_word), Chr CHR ''*'', Chr CHR ''*'', Grp 2 (Plus is_word)]"

definition re_word_unders_word :: regex where \<comment> \<open>\<open>/(\w+)__(\w+)/\<close>\<close>
  "re_word_unders_word =
     seqs [Grp 1 (Plus is_word), Chr CHR ''_'', Chr CHR ''_'', Grp 2 (Plus is_word)]"

definition re_stars_caps_stars :: regex where \<comment> \<open>\<open>/\*\*([A-Z]+)\*\*/\<close>\<close>
  "re_stars_caps_stars =
     seqs [Chr CHR ''*'', Chr CHR ''*'', Grp 1 (Plus is_upper), Chr CHR ''*'', Chr CHR ''*'']"

definition re_unders_text_unders :: regex where \<comment> \<open>\<open>/__([^_]+)__/\<close>\<close>
  "re_unders_text_unders =
     seqs [Chr CHR ''_'', Chr CHR ''_'', Grp 1 (Plus (\<lambda>c. c \<noteq> CHR ''_'')),
           Chr CHR ''_'', Chr CHR ''_'']"

definition chain :: "'a \<Rightarrow> ('a \<Rightarrow> 'a) list \<Rightarrow> 'a" where
  \<comment> \<open>\<open>x.f1().f2()...\<close>: the calls of a method chain, applied in order\<close>
  "chain x fs = foldl (\<lambda>y f. f y) x fs"

definition protectLaTeX :: "string \<Rightarrow> string" where
  "protectLaTeX text =
     chain text
       [replace_all re_word_stars_caps ''$1^{$2}'',
        replace_all re_word_stars_word ''$1^{$2}'',
        replace_all re_word_unders_word ''$1_{$2}'',
        replace_all re_stars_caps_stars ''^{$1}'',
        replace_all re_unders_text_unders ''_{$1}'']"

section \<open>Markdown tree transducer\<close>

definition re_spaces :: regex where \<comment> \<open>\<open>/\s+/\<close>\<close>
  "re_spaces = Plus is_space"

definition re_block_math_group :: regex where \<comment> \<open>\<open>/\$\$([^$]+)\$\$/\<close>\<close>
  "re_block_math_group =
     seqs [Chr CHR ''$'', Chr CHR ''$'', Grp 1 (Plus (\<lambda>c. c \<noteq> CHR ''$'')),
           Chr CHR ''$'', Chr CHR ''$'']"

definition re_inline_math_group :: regex where \<comment> \<open>\<open>/\$([^$]+)\$/\<close>\<close>
  "re_inline_math_group =
     seqs [Chr CHR ''$'', Grp 1 (Plus (\<lambda>c. c \<noteq> CHR ''$'')), Chr CHR ''$'']"

definition processText :: "bool \<Rightarrow> string \<Rightarrow> string" where
  \<comment> \<open>the text-node branch of \<open>processNode\<close>\<close>
  "processText notionMode data =
     (let textContent = trim (replace_all re_spaces '' '' data) in
      if textContent = [] then []
      else
        let textContent = protectLaTeX textContent in
        if containsLaTeX textContent \<and> notionMode
        then chain textContent
               [replace_all re_block_math_group ''\<newline>\<newline>$1\<newline>\<newline>'',
                replace_all re_inline_math_group ''$1'']
        else textContent)"

definition re_only_word :: regex where \<comment> \<open>\<open>/^\w+$/\<close>\<close>
  "re_only_word = seqs [Bol, Plus is_word, Eol]"

definition re_word_at_end :: regex where \<comment> \<open>\<open>/\w$/\<close>\<close>
  "re_word_at_end = seqs [Cls is_word, Eol]"

definition re_only_caps :: regex where \<comment> \<open>\<open>/^[A-Z]+$/\<close>\<close>
  "re_only_caps = seqs [Bol, Plus is_upper, Eol]"

definition re_only_digits :: regex where \<comment> \<open>\<open>/^\d+$/\<close>\<close>
  "re_only_digits = seqs [Bol, Plus is_digit, Eol]"

definition re_language :: regex where \<comment> \<open>\<open>/language-(\w+)/\<close>\<close>
  "re_language =
     seqs [Chr CHR ''l'', Chr CHR ''a'', Chr CHR ''n'', Chr CHR ''g'', Chr CHR ''u'',
           Chr CHR ''a'', Chr CHR ''g'', Chr CHR ''e'', Chr CHR ''-'', Grp 1 (Plus is_word)]"

definition re_pipe :: regex where \<comment> \<open>\<open>/\|/\<close>\<close>
  "re_pipe = Chr CHR ''|''"

definition re_dollars :: regex where \<comment> \<open>\<open>/\$+/\<close>\<close>
  "re_dollars = Plus (\<lambda>c. c = CHR ''$'')"

text \<open>
  The host of a document: its host name, and the resolution of a relative reference
  against \<open>window.location.href\<close>, which is \<open>None\<close> where the \<open>URL\<close> constructor raises.
\<close>

record host =
  hostname :: string
  resolveURL :: "string \<Rightarrow> string option"

definition absoluteURL :: "host \<Rightarrow> string \<Rightarrow> error + string" where
  \<comment> \<open>\<open>ref.startsWith('http') ? ref : new URL(ref, window.location.href).href\<close>\<close>
  "absoluteURL h ref =
     (if startsWith ref ''http'' then Inr ref
      else (case resolveURL h ref of None \<Rightarrow> Inl TypeError | Some u \<Rightarrow> Inr u))"

definition heading :: "nat \<Rightarrow> string \<Rightarrow> string" where
  "heading level childrenMarkdown =
     (let content = trim childrenMarkdown in
      if content \<noteq> [] then replicate level CHR ''#'' @ '' '' @ content @ ''\<newline>\<newline>''
      else [])"

definition paragraphOf :: "string \<Rightarrow> string" where
  "paragraphOf childrenMarkdown =
     (let trimmed = trim childrenMarkdown in
      if trimmed \<noteq> [] then trimmed @ ''\<newline>\<newline>'' else [])"

definition isInsideMath :: "element list \<Rightarrow> element \<Rightarrow> bool" where
  \<comment> \<open>\<open>node.closest('math') !== null\<close>, over the element and its ancestors\<close>
  "isInsideMath ancestors e = list_ex (\<lambda>a. lowerTag a = ''math'') (e # ancestors)"

definition textOf :: "node option \<Rightarrow> string" where
  \<comment> \<open>\<open>sibling?.textContent || ''\<close>\<close>
  "textOf sibling = (case sibling of None \<Rightarrow> [] | Some n \<Rightarrow> textContent n)"

definition strongMarkdown :: "bool \<Rightarrow> string \<Rightarrow> string \<Rightarrow> string" where
  "strongMarkdown insideMath prevText childrenMarkdown =
     (let content = trim childrenMarkdown;
          isLikelyMathNotation =
            (insideMath \<or> containsLaTeX childrenMarkdown \<or> test re_only_word content \<or>
             (test re_word_at_end prevText \<and> test re_only_caps content) \<or>
             (test re_word_at_end prevText \<and> test re_only_digits content))
      in
      if isLikelyMathNotation
      then (if test re_word_at_end prevText then ''^{'' @ content @ ''}'' else content)
      else ''**'' @ content @ ''**'')"

definition emMarkdown :: "bool \<Rightarrow> string \<Rightarrow> string" where
  "emMarkdown insideMath childrenMarkdown =
     (let emContent = trim childrenMarkdown;
          isLikelyMathNotationEm =
            (insideMath \<or> containsLaTeX childrenMarkdown \<or> test re_only_word emContent)
      in if isLikelyMathNotationEm then emContent else ''*'' @ emContent @ ''*'')"

fun firstDescendant :: "string \<Rightarrow> node list \<Rightarrow> node option" where
  \<comment> \<open>\<open>node.querySelector(tag)\<close> over the children \<open>cs\<close> of \<open>node\<close>, in document order\<close>
  "firstDescendant tag [] = None"
| "firstDescendant tag (Text s # rest) = firstDescendant tag rest"
| "firstDescendant tag (Comment s # rest) = firstDescendant tag rest"
| "firstDescendant tag (Element e cs # rest) =
     (if lowerTag e = tag then Some (Element e cs)
      else (case firstDescendant tag cs of
              Some n \<Rightarrow> Some n
            | None \<Rightarrow> firstDescendant tag rest))"

definition fence :: string where "fence = ''```''"

definition preMarkdown :: "element \<Rightarrow> node list \<Rightarrow> string" where
  "preMarkdown e cs =
     (case firstDescendant ''code'' cs of
        Some (Element ce ccs) \<Rightarrow>
          (let codeContent = trim (textContent (Element ce ccs));
               language = (case search_from False re_language None (className ce) of
                             None \<Rightarrow> [] | Some (m, caps) \<Rightarrow> group caps 1)
           in fence @ language @ ''\<newline>'' @ codeContent @ ''\<newline>'' @ fence @
              ''\<newline>\<newline>'')
      | _ \<Rightarrow>
          fence @ ''\<newline>'' @ trim (textContent (Element e cs)) @ ''\<newline>'' @ fence @
          ''\<newline>\<newline>'')"

definition count_pipes :: "string \<Rightarrow> nat" where
  \<comment> \<open>\<open>(row.match(/\|/g) || []).length\<close>\<close>
  "count_pipes row = length (filter (\<lambda>c. c = CHR ''|'') row)"

definition cleanRowOf :: "string \<Rightarrow> string" where
  "cleanRowOf row =
     (let cleanRow = trim row;
          cleanRow = (if \<not> startsWith cleanRow ''|'' then ''| '' @ cleanRow else cleanRow);
          cleanRow = (if \<not> endsWith cleanRow ''|'' then cleanRow @ '' |'' else cleanRow)
      in cleanRow)"

fun tableRows :: "bool \<Rightarrow> string list \<Rightarrow> string" where
  \<comment> \<open>the loop over \<open>rows\<close>; the flag is \<open>isFirstRow\<close>\<close>
  "tableRows isFirstRow [] = []"
| "tableRows isFirstRow (row # rows) =
     (let cleanRow = cleanRowOf row in
      cleanRow @ ''\<newline>'' @
      (if isFirstRow
       then (let cellCount = count_pipes cleanRow - 1;
                 separator = ''| '' @ concat (replicate cellCount ''--- | '')
             in separator @ ''\<newline>'')
       else []) @
      tableRows False rows)"

definition tableMarkdown :: "string \<Rightarrow> string" where
  "tableMarkdown childrenMarkdown =
     (let tableContent = trim childrenMarkdown in
      if tableContent \<noteq> [] then
        (let rows = filter (\<lambda>row. trim row \<noteq> []) (split_on CHR 0x0A tableContent) in
         if length rows > 0 then tableRows True rows @ ''\<newline>'' else [])
      else [])"

definition blockChildTags :: "string list" where
  "blockChildTags =
     [''p'', ''div'', ''h1'', ''h2'', ''h3'', ''h4'', ''h5'', ''h6'', ''ul'', ''ol'',
      ''blockquote'']"

fun hasBlockChildren :: "node list \<Rightarrow> bool" where
  "hasBlockChildren [] = False"
| "hasBlockChildren (Element e cs # rest) =
     (lowerTag e \<in> set blockChildTags \<or> hasBlockChildren rest)"
| "hasBlockChildren (n # rest) = hasBlockChildren rest"

definition ignoredTags :: "string list" where
  "ignoredTags =
     [''script'', ''style'', ''noscript'', ''head'', ''meta'', ''link'', ''title'',
      ''nav'', ''menu'', ''button'', ''form'', ''input'', ''textarea'', ''select'']"

definition formatElement ::
  "host \<Rightarrow> bool \<Rightarrow> element list \<Rightarrow> node option \<Rightarrow> element \<Rightarrow> node list \<Rightarrow> string \<Rightarrow> error + string"
where
  \<comment> \<open>the \<open>switch (tagName)\<close> of \<open>processNode\<close>, given the rendering of the children\<close>
  "formatElement h notionMode ancestors previousSibling e cs childrenMarkdown =
     (let tag = lowerTag e in
      if tag = ''h1'' then Inr (heading 1 childrenMarkdown)
      else if tag = ''h2'' then Inr (heading 2 childrenMarkdown)
      else if tag = ''h3'' then Inr (heading 3 childrenMarkdown)
      else if tag = ''h4'' then Inr (heading 4 childrenMarkdown)
      else if tag = ''h5'' then Inr (heading 5 childrenMarkdown)
      else if tag = ''h6'' then Inr (heading 6 childrenMarkdown)
      else if tag = ''p'' then Inr (paragraphOf childrenMarkdown)
      else if tag = ''br'' then Inr ''\<newline>''
      else if tag = ''strong'' \<or> tag = ''b'' then
        Inr (strongMarkdown (isInsideMath ancestors e) (textOf previousSibling) childrenMarkdown)
      else if tag = ''em'' \<or> tag = ''i'' then
        Inr (emMarkdown (isInsideMath ancestors e) childrenMarkdown)
      else if tag = ''code'' then
        (case ancestors of
           parent # _ \<Rightarrow>
             if lowerTag parent \<noteq> ''pre'' then Inr (''`'' @ trim childrenMarkdown @ ''`'')
             else Inr childrenMarkdown
         | [] \<Rightarrow> Inr childrenMarkdown)
      else if tag = ''pre'' then Inr (preMarkdown e cs)
      else if tag = ''blockquote'' then
        Inr (''> '' @ trim childrenMarkdown @ ''\<newline>\<newline>'')
      else if tag = ''ul'' then Inr (childrenMarkdown @ ''\<newline>'')
      else if tag = ''ol'' then Inr (childrenMarkdown @ ''\<newline>'')
      else if tag = ''li'' then
        (let trimmedLi = trim childrenMarkdown in
         if trimmedLi \<noteq> [] then
           (case ancestors of
              parent # _ \<Rightarrow>
                if lowerTag parent = ''ol'' then Inr (''1. '' @ trimmedLi @ ''\<newline>'')
                else Inr (''- '' @ trimmedLi @ ''\<newline>'')
            | [] \<Rightarrow> Inr (''- '' @ trimmedLi @ ''\<newline>''))
         else Inr [])
      else if tag = ''a'' then
        (let href = getAttribute e ''href''; linkText = trim childrenMarkdown in
         case href of
           Some ref \<Rightarrow>
             if ref \<noteq> [] \<and> linkText \<noteq> [] \<and> ref \<noteq> linkText
             then bind_err (absoluteURL h ref) (\<lambda>absoluteUrl.
                    Inr (''['' @ linkText @ ''](''  @ absoluteUrl @ '')''))
             else Inr linkText
         | None \<Rightarrow> Inr linkText)
      else if tag = ''img'' then
        (let alt = (case getAttribute e ''alt'' of
                      None \<Rightarrow> ''image'' | Some a \<Rightarrow> if a = [] then ''image'' else a)
         in
         case getAttribute e ''src'' of
           Some src \<Rightarrow>
             if src \<noteq> []
             then bind_err (absoluteURL h src) (\<lambda>absoluteSrc.
                    Inr (''!['' @ alt @ ''](''  @ absoluteSrc @ '')\<newline>\<newline>''))
             else Inr []
         | None \<Rightarrow> Inr [])
      else if tag = ''math'' then
        bind_err (mathMLToLaTeX notionMode (Element e cs)) (\<lambda>markdown.
          if getAttribute e ''display'' = Some ''block'' \<and> \<not> notionMode
          then Inr (markdown @ ''\<newline>\<newline>'') else Inr markdown)
      else if tag = ''table'' then Inr (tableMarkdown childrenMarkdown)
      else if tag = ''tr'' then Inr (childrenMarkdown @ ''|\<newline>'')
      else if tag = ''td'' \<or> tag = ''th'' then
        (let cellContent = replace_all re_pipe (BSL # ''|'') (trim childrenMarkdown)
         in Inr ('' '' @ cellContent @ '' |''))
      else if tag = ''span'' then
        (if ''math'' \<in> set (classList e) \<or> ''katex'' \<in> set (classList e) \<or>
            ''mathjax'' \<in> set (classList e) \<or> containsLaTeX childrenMarkdown
         then (if notionMode then Inr (replace_all re_dollars [] childrenMarkdown)
               else Inr childrenMarkdown)
         else Inr childrenMarkdown)
      else if tag \<in> set [''div'', ''section'', ''article'', ''main'', ''aside'', ''header'', ''footer'']
      then
        (if hasBlockChildren cs then Inr childrenMarkdown
         else Inr (paragraphOf childrenMarkdown))
      else if tag \<in> set ignoredTags then Inr []
      else Inr childrenMarkdown)"

definition spacedTags :: "string list" where
  "spacedTags = [''span'', ''a'', ''strong'', ''em'', ''code'']"

fun needsSpace :: "node \<Rightarrow> bool" where
  "needsSpace (Element e cs) = (lowerTag e \<in> set spacedTags)"
| "needsSpace n = False"

definition appendChild :: "string \<Rightarrow> node \<Rightarrow> string \<Rightarrow> string" where
  \<comment> \<open>one round of the loop over the children: the new \<open>childrenMarkdown\<close>\<close>
  "appendChild childrenMarkdown child childResult =
     (if childResult \<noteq> [] then
        (if childrenMarkdown \<noteq> [] \<and> \<not> endsWith childrenMarkdown '' '' \<and>
            \<not> startsWith childResult '' '' \<and> needsSpace child
         then childrenMarkdown @ '' '' else childrenMarkdown) @ childResult
      else childrenMarkdown)"

fun processNode :: "host \<Rightarrow> bool \<Rightarrow> element list \<Rightarrow> node option \<Rightarrow> node \<Rightarrow> error + string"
  and processChildren ::
    "host \<Rightarrow> bool \<Rightarrow> element list \<Rightarrow> node option \<Rightarrow> string \<Rightarrow> node list \<Rightarrow> error + string"
where
  "processNode h notionMode ancestors previousSibling (Text s) = Inr (processText notionMode s)"
| "processNode h notionMode ancestors previousSibling (Comment s) = Inr []"
| "processNode h notionMode ancestors previousSibling (Element e cs) =
     (if shouldSkipElement (Element e cs) then Inr []
      else bind_err (processChildren h notionMode (e # ancestors) None [] cs)
             (formatElement h notionMode ancestors previousSibling e cs))"
| "processChildren h notionMode ancestors previousSibling childrenMarkdown [] =
     Inr childrenMarkdown"
| "processChildren h notionMode ancestors previousSibling childrenMarkdown (child # rest) =
     bind_err (processNode h notionMode ancestors previousSibling child) (\<lambda>childResult.
       processChildren h notionMode ancestors (Some child)
         (appendChild childrenMarkdown child childResult) rest)"

text \<open>
  \<open>processNode\<close> takes, besides the node, what the code reads from the node's position in
  the tree: its ancestors, nearest first (\<open>parentElement\<close>, \<open>closest\<close>), and its previous
  sibling. \<open>nextText\<close> is computed by the code and never used.
\<close>


section \<open>Main-content locator\<close>

text \<open>
  A located element is an element together with its place in the document: the path of
  child indices from the root (its identity), its ancestors, nearest first, and its
  previous sibling. Selectors are matched as in a document in no-quirks mode: tag names
  without regard to case, class names, ids and attribute values exactly.
\<close>

record located =
  path :: "nat list"
  ancestorsOf :: "element list"
  previousOf :: "node option"
  nodeOf :: node

record document =
  location :: host
  documentElement :: node

fun elementsFrom :: "nat list \<Rightarrow> element list \<Rightarrow> node option \<Rightarrow> node \<Rightarrow> located list"
  and elementsOfChildren ::
    "nat list \<Rightarrow> element list \<Rightarrow> node option \<Rightarrow> nat \<Rightarrow> node list \<Rightarrow> located list"
where
  "elementsFrom p ancs prev (Element e cs) =
     \<lparr>path = p, ancestorsOf = ancs, previousOf = prev, nodeOf = Element e cs\<rparr> #
     elementsOfChildren p (e # ancs) None 0 cs"
| "elementsFrom p ancs prev (Text s) = []"
| "elementsFrom p ancs prev (Comment s) = []"
| "elementsOfChildren p ancs prev i [] = []"
| "elementsOfChildren p ancs prev i (c # cs) =
     elementsFrom (p @ [i]) ancs prev c @ elementsOfChildren p ancs (Some c) (Suc i) cs"

definition allElements :: "document \<Rightarrow> located list" where
  \<comment> \<open>the elements of the document, in document order\<close>
  "allElements doc = elementsFrom [] [] None (documentElement doc)"

datatype selector =
    TypeSel string
  | ClassSel string
  | IdSel string
  | AttrSel string
  | AttrEqSel string string
  | DescendantSel selector selector

fun matches :: "selector \<Rightarrow> element list \<Rightarrow> element \<Rightarrow> bool"
  and someAncestor :: "selector \<Rightarrow> element list \<Rightarrow> bool"
where
  "matches (TypeSel t) ancs e = (lowerTag e = t)"
| "matches (ClassSel c) ancs e = (c \<in> set (classList e))"
| "matches (IdSel i) ancs e = (getAttribute e ''id'' = Some i)"
| "matches (AttrSel a) ancs e = hasAttribute e a"
| "matches (AttrEqSel a v) ancs e = (getAttribute e a = Some v)"
| "matches (DescendantSel s1 s2) ancs e = (matches s2 ancs e \<and> someAncestor s1 ancs)"
| "someAncestor s [] = False"
| "someAncestor s (a # ancs) = (matches s ancs a \<or> someAncestor s ancs)"

definition locatedMatches :: "selector \<Rightarrow> located \<Rightarrow> bool" where
  "locatedMatches sel l =
     (case nodeOf l of Element e cs \<Rightarrow> matches sel (ancestorsOf l) e | _ \<Rightarrow> False)"

definition querySelector :: "document \<Rightarrow> selector \<Rightarrow> located option" where
  "querySelector doc sel = find (locatedMatches sel) (allElements doc)"

definition querySelectorAll :: "document \<Rightarrow> selector list \<Rightarrow> located list" where
  "querySelectorAll doc sels =
     filter (\<lambda>l. list_ex (\<lambda>sel. locatedMatches sel l) sels) (allElements doc)"

definition closest :: "document \<Rightarrow> selector \<Rightarrow> located \<Rightarrow> located option" where
  \<comment> \<open>the nearest of the element and its ancestors that the selector matches\<close>
  "closest doc sel l =
     (case rev (filter (\<lambda>a. take (length (path a)) (path l) = path a \<and> locatedMatches sel a)
                  (allElements doc)) of
        [] \<Rightarrow> None
      | a # _ \<Rightarrow> Some a)"

definition body :: "document \<Rightarrow> located option" where
  \<comment> \<open>\<open>document.body\<close>: the first \<open>body\<close> or \<open>frameset\<close> child of the \<open>html\<close> element\<close>
  "body doc =
     (case documentElement doc of
        Element e cs \<Rightarrow>
          if lowerTag e = ''html''
          then find (\<lambda>l. length (path l) = 1 \<and>
                         (locatedMatches (TypeSel ''body'') l \<or>
                          locatedMatches (TypeSel ''frameset'') l))
                 (allElements doc)
          else None
      | _ \<Rightarrow> None)"

fun orElse :: "'a option \<Rightarrow> 'a option \<Rightarrow> 'a option" where
  \<comment> \<open>\<open>a || b\<close> on possibly-null objects\<close>
  "orElse (Some x) y = Some x"
| "orElse None y = y"

definition contentSelectors :: "selector list" where
  "contentSelectors =
     [ClassSel ''content'', IdSel ''content'', ClassSel ''post'', ClassSel ''entry-content'',
      ClassSel ''post-content'', ClassSel ''article-content'', ClassSel ''page-content'',
      ClassSel ''container'', ClassSel ''wrapper'', ClassSel ''main-content'']"

definition githubSelectors :: "selector list" where
  "githubSelectors =
     [AttrEqSel ''data-testid'' ''results-list'',
      DescendantSel (ClassSel ''js-navigation-container'') (ClassSel ''js-issue-row''),
      ClassSel ''js-navigation-container'',
      ClassSel ''repository-content'',
      ClassSel ''application-main'',
      AttrSel ''data-turbo-permanent'',
      IdSel ''js-repo-pjax-container'']"

fun firstMatch :: "document \<Rightarrow> selector list \<Rightarrow> located option" where
  \<comment> \<open>the first selector of the list that selects an element, and that element\<close>
  "firstMatch doc [] = None"
| "firstMatch doc (sel # sels) = orElse (querySelector doc sel) (firstMatch doc sels)"

fun scanCandidates :: "located option \<Rightarrow> nat \<Rightarrow> located list \<Rightarrow> located option" where
  \<comment> \<open>the loop of strategy 4, with \<open>bestCandidate\<close> and \<open>maxTextLength\<close>\<close>
  "scanCandidates bestCandidate maxTextLength [] = bestCandidate"
| "scanCandidates bestCandidate maxTextLength (candidate # rest) =
     (if shouldSkipElement (nodeOf candidate)
      then scanCandidates bestCandidate maxTextLength rest
      else
        let textLength = length (getCleanTextContent (nodeOf candidate)) in
        if textLength > maxTextLength then scanCandidates (Some candidate) textLength rest
        else scanCandidates bestCandidate maxTextLength rest)"

definition findMainContent :: "document \<Rightarrow> located option" where
  "findMainContent doc =
     (case firstMatch doc [TypeSel ''article'', TypeSel ''main'', AttrEqSel ''role'' ''main''] of
        Some mainContent \<Rightarrow> Some mainContent
      | None \<Rightarrow>
     (case firstMatch doc contentSelectors of
        Some mainContent \<Rightarrow> Some mainContent
      | None \<Rightarrow>
     (case (if includes_str (hostname (location doc)) ''github.com''
            then firstMatch doc githubSelectors else None) of
        Some mainContent \<Rightarrow>
          orElse (closest doc (ClassSel ''js-navigation-container'') mainContent)
                 (Some mainContent)
      | None \<Rightarrow>
          orElse
            (scanCandidates None 0
               (querySelectorAll doc
                  [TypeSel ''div'', TypeSel ''section'', TypeSel ''article'', TypeSel ''main'']))
            (body doc))))"

section \<open>Post-processing pipeline\<close>

abbreviation LF :: char where "LF \<equiv> CHR 0x0A"

definition is_LF :: "char \<Rightarrow> bool" where "is_LF c = (c = LF)"

definition re_newlines4 :: regex where \<comment> \<open>\<open>/\n{4,}/\<close>\<close>
  "re_newlines4 = Rep 4 None is_LF"

definition re_blanks_newline :: regex where \<comment> \<open>\<open>/[ \t]+\n/\<close>\<close>
  "re_blanks_newline = seqs [Plus is_blank, Chr LF]"

definition re_newline_blanks :: regex where \<comment> \<open>\<open>/\n[ \t]+/\<close>\<close>
  "re_newline_blanks = seqs [Chr LF, Plus is_blank]"

definition re_blanks2 :: regex where \<comment> \<open>\<open>/[ \t]{2,}/\<close>\<close>
  "re_blanks2 = Rep 2 None is_blank"

definition re_sentence_capital :: regex where \<comment> \<open>\<open>/([.!?])\s*([A-Z])/\<close>\<close>
  "re_sentence_capital = seqs [Grp 1 (Cls is_sentence_end), Star is_space, Grp 2 (Cls is_upper)]"

definition re_camel :: regex where \<comment> \<open>\<open>/([a-z])([A-Z])/\<close>\<close>
  "re_camel = seqs [Grp 1 (Cls is_lower), Grp 2 (Cls is_upper)]"

definition re_punctuation :: regex where \<comment> \<open>\<open>/(\w)([.!?])\s*(\w)/\<close>\<close>
  "re_punctuation =
     seqs [Grp 1 (Cls is_word), Grp 2 (Cls is_sentence_end), Star is_space, Grp 3 (Cls is_word)]"

definition re_newlines3 :: regex where \<comment> \<open>\<open>/\n{3,}/\<close>\<close>
  "re_newlines3 = Rep 3 None is_LF"

definition re_row_end :: regex where \<comment> \<open>\<open>/\|\s*\n/\<close>\<close>
  "re_row_end = seqs [Chr CHR ''|'', Star is_space, Chr LF]"

definition re_outer_space :: regex where \<comment> \<open>\<open>/^\s+|\s+$/\<close>\<close>
  "re_outer_space = Alt (seqs [Bol, Plus is_space]) (seqs [Plus is_space, Eol])"

definition re_empty_target :: regex where \<comment> \<open>\<open>/\[([^\]]*)\]\(\)/\<close>\<close>
  "re_empty_target =
     seqs [Chr CHR ''['', Grp 1 (Star (\<lambda>c. c \<noteq> CHR '']'')), Chr CHR '']'',
           Chr CHR ''('', Chr CHR '')'']"

definition re_empty_text :: regex where \<comment> \<open>\<open>/\[\]\([^)]*\)/\<close>\<close>
  "re_empty_text =
     seqs [Chr CHR ''['', Chr CHR '']'', Chr CHR ''('', Star (\<lambda>c. c \<noteq> CHR '')''),
           Chr CHR '')'']"

definition re_empty_cell :: regex where \<comment> \<open>\<open>/\|\s*\|\s*\n/\<close>\<close>
  "re_empty_cell = seqs [Chr CHR ''|'', Star is_space, Chr CHR ''|'', Star is_space, Chr LF]"

definition re_word_stars_caps_stars :: regex where \<comment> \<open>\<open>/(\w+)\*\*([A-Z]+)\*\*/\<close>\<close>
  "re_word_stars_caps_stars =
     seqs [Grp 1 (Plus is_word), Chr CHR ''*'', Chr CHR ''*'', Grp 2 (Plus is_upper),
           Chr CHR ''*'', Chr CHR ''*'']"

definition re_word_stars_word_stars :: regex where \<comment> \<open>\<open>/(\w+)\*\*(\w+)\*\*/\<close>\<close>
  "re_word_stars_word_stars =
     seqs [Grp 1 (Plus is_word), Chr CHR ''*'', Chr CHR ''*'', Grp 2 (Plus is_word),
           Chr CHR ''*'', Chr CHR ''*'']"

definition re_stars_word_stars :: regex where \<comment> \<open>\<open>/\*\*(\w+)\*\*/\<close>\<close>
  "re_stars_word_stars =
     seqs [Chr CHR ''*'', Chr CHR ''*'', Grp 1 (Plus is_word), Chr CHR ''*'', Chr CHR ''*'']"

definition re_newlines2_more :: regex where \<comment> \<open>\<open>/\n\n\n+/\<close>\<close>
  "re_newlines2_more = seqs [Chr LF, Chr LF, Plus is_LF]"

definition re_sentence_newline :: regex where \<comment> \<open>\<open>/([.!?])\n([A-Z])/\<close>\<close>
  "re_sentence_newline = seqs [Grp 1 (Cls is_sentence_end), Chr LF, Grp 2 (Cls is_upper)]"

definition re_line :: regex where \<comment> \<open>\<open>/^(.+)$/\<close>, used with the \<open>m\<close> flag\<close>
  "re_line = seqs [Bol, Grp 1 (Plus is_dot), Eol]"

definition re_dollar2 :: regex where \<comment> \<open>\<open>/\$\$/\<close>\<close>
  "re_dollar2 = seqs [Chr CHR ''$'', Chr CHR ''$'']"

definition re_dollar :: regex where \<comment> \<open>\<open>/\$/\<close>\<close>
  "re_dollar = Chr CHR ''$''"

definition trimLines :: "string \<Rightarrow> string" where
  \<comment> \<open>\<open>.replace(/^(.+)$/gm, (match) => match.trim())\<close>\<close>
  "trimLines s = replace_with True re_line (\<lambda>m caps. trim m) None s"

definition cleanupPasses :: "(string \<Rightarrow> string) list" where
  "cleanupPasses =
     [replace_all re_newlines4 ''\<newline>\<newline>\<newline>'',
      replace_all re_blanks_newline ''\<newline>'',
      replace_all re_newline_blanks ''\<newline>'',
      replace_all re_blanks2 '' '',
      replace_all re_sentence_capital ''$1 $2'',
      replace_all re_camel ''$1 $2'',
      replace_all re_punctuation ''$1$2 $3'',
      replace_all re_newlines3 ''\<newline>\<newline>'',
      replace_all re_row_end ''|\<newline>'',
      replace_all re_outer_space [],
      replace_all re_empty_target ''$1'',
      replace_all re_empty_text [],
      replace_all re_empty_cell ''|\<newline>'',
      replace_all re_word_stars_caps_stars ''$1^{$2}'',
      replace_all re_word_stars_word_stars ''$1^{$2}'',
      replace_all re_word_stars_caps ''$1^{$2}'',
      replace_all re_word_stars_word ''$1^{$2}'',
      replace_all re_stars_caps_stars ''^{$1}'',
      replace_all re_stars_word_stars ''^{$1}'',
      replace_all re_newlines2_more ''\<newline>\<newline>'',
      replace_all re_sentence_newline ''$1\<newline>\<newline>$2'',
      trimLines]"

definition notionPasses :: "(string \<Rightarrow> string) list" where
  "notionPasses =
     [replace_all re_dollar2 [],
      replace_all re_dollar [],
      replace_all re_newlines3 ''\<newline>\<newline>'']"

definition cleanup :: "bool \<Rightarrow> string \<Rightarrow> string" where
  \<comment> \<open>the rewriting of \<open>result\<close> between \<open>processNode\<close> and the word count\<close>
  "cleanup notionMode raw =
     (let result = chain raw cleanupPasses in
      if notionMode then chain result notionPasses else result)"

section \<open>Extraction orchestrator\<close>

function split_loop :: "regex \<Rightarrow> char option \<Rightarrow> string \<Rightarrow> string \<Rightarrow> string list" where
  \<comment> \<open>\<open>s.split(/r/)\<close> for a pattern without groups; \<open>piece\<close> is the text since the last
      separator, reversed\<close>
  "split_loop r prev piece s =
     (case s of
        [] \<Rightarrow> [rev piece]
      | c # cs \<Rightarrow>
          (case exec_at False r prev s of
             None \<Rightarrow> split_loop r (Some c) (c # piece) cs
           | Some (n, caps) \<Rightarrow>
               if n = 0 then
                 (if piece = [] then split_loop r (Some c) [c] cs
                  else rev piece # split_loop r (Some c) [c] cs)
               else rev piece # split_loop r (last_of prev (take n s)) [] (drop n s)))"
  by pat_completeness auto
termination
  by (relation "measure (\<lambda>(r, prev, piece, s). length s)") (auto dest: exec_at_le)

declare split_loop.simps [simp del]

definition split_re :: "regex \<Rightarrow> string \<Rightarrow> string list" where
  "split_re r s =
     (if s = [] then (if exec_at False r None [] \<noteq> None then [] else [[]])
      else split_loop r None [] s)"

definition wordCount :: "string \<Rightarrow> nat" where
  \<comment> \<open>\<open>result.split(/\s+/).filter(word => word.length > 0).length\<close>\<close>
  "wordCount result = length (filter (\<lambda>word. length word > 0) (split_re re_spaces result))"

definition render :: "document \<Rightarrow> bool \<Rightarrow> located option \<Rightarrow> error + string" where
  \<comment> \<open>\<open>processNode(mainContent)\<close>; reading \<open>nodeType\<close> of \<open>null\<close> raises\<close>
  "render doc notionMode mainContent =
     (case mainContent of
        None \<Rightarrow> Inl TypeError
      | Some l \<Rightarrow> processNode (location doc) notionMode (ancestorsOf l) (previousOf l) (nodeOf l))"

definition sameNode :: "located option \<Rightarrow> located option \<Rightarrow> bool" where
  \<comment> \<open>\<open>a === b\<close> on nodes of one document\<close>
  "sameNode a b = (map_option path a = map_option path b)"

partial_function (option) extractPageContent :: "document \<Rightarrow> bool \<Rightarrow> (error + string) option" where
  "extractPageContent doc notionMode =
     (let mainContent = findMainContent doc in
      case render doc notionMode mainContent of
        Inl err \<Rightarrow> Some (Inl err)
      | Inr raw \<Rightarrow>
          (let result = cleanup notionMode raw in
           if wordCount result < 3 \<and> \<not> sameNode mainContent (body doc)
           then extractPageContent doc notionMode
           else Some (Inr result)))"

text \<open>
  The result is \<open>None\<close> where the call never returns a string: the self-call of the
  code passes the same arguments on the same document, so a call that reaches it
  reaches it again, until the host gives up on the call stack. \<open>Some (Inl err)\<close> is
  an exception leaving the function, \<open>Some (Inr s)\<close> the returned string.
\<close>

section \<open>Plain and calm fragments\<close>

text \<open>
  The fragments on which no pass of the cleanup finds anything to rewrite. A plain
  fragment is one line without capital letters, sentence punctuation, \<open>|\<close>, \<open>[\<close>, \<open>*\<close> and
  \<open>$\<close>, with single spaces between its words and none around them. A calm fragment may
  also hold capital letters, none of them right after a small letter, the character
  \<open>|\<close>, and stars, no two of them in a row.
\<close>

definition quiet :: "char \<Rightarrow> bool" where
  \<comment> \<open>a character that no pass of the cleanup looks for\<close>
  "quiet c =
     (\<not> is_space c \<and> \<not> is_upper c \<and> \<not> is_sentence_end c \<and>
      c \<noteq> CHR ''|'' \<and> c \<noteq> CHR ''['' \<and> c \<noteq> CHR ''*'' \<and> c \<noteq> CHR ''$'')"

fun plain_from :: "string \<Rightarrow> bool" where
  \<comment> \<open>quiet characters and single spaces, each space before a quiet character\<close>
  "plain_from [] = True"
| "plain_from [c] = quiet c"
| "plain_from (c # d # t) = ((quiet c \<or> (c = CHR '' '' \<and> quiet d)) \<and> plain_from (d # t))"

definition plain :: "string \<Rightarrow> bool" where
  \<comment> \<open>and no space at the start\<close>
  "plain s = (plain_from s \<and> (case s of [] \<Rightarrow> True | c # t \<Rightarrow> quiet c))"

definition gentle :: "char \<Rightarrow> bool" where
  \<comment> \<open>a quiet character, a capital letter, \<open>|\<close> or \<open>*\<close>\<close>
  "gentle c =
     (\<not> is_space c \<and> \<not> is_sentence_end c \<and> c \<noteq> CHR ''['' \<and> c \<noteq> CHR ''$'')"

definition single :: "char \<Rightarrow> char \<Rightarrow> char \<Rightarrow> bool" where
  \<comment> \<open>two neighbours that are not both the character \<open>x\<close>\<close>
  "single x c d = (\<not> (c = x \<and> d = x))"

definition steady :: "char \<Rightarrow> char \<Rightarrow> bool" where
  \<comment> \<open>no small letter right before a capital letter, and no two stars in a row\<close>
  "steady c d = (\<not> (is_lower c \<and> is_upper d) \<and> single CHR ''*'' c d)"

fun calm_from :: "string \<Rightarrow> bool" where
  \<comment> \<open>gentle characters and single spaces, each space before a gentle character\<close>
  "calm_from [] = True"
| "calm_from [c] = gentle c"
| "calm_from (c # d # t) = ((gentle c \<or> (c = CHR '' '' \<and> gentle d)) \<and> calm_from (d # t))"

definition calm :: "string \<Rightarrow> bool" where
  \<comment> \<open>no space at the start, and steady neighbours\<close>
  "calm s =
     (calm_from s \<and> (case s of [] \<Rightarrow> True | c # t \<Rightarrow> gentle c) \<and> successively steady s)"

definition harsh :: "char \<Rightarrow> bool" where
  \<comment> \<open>a character that a calm fragment does not hold\<close>
  "harsh c = (\<not> gentle c \<and> c \<noteq> CHR '' '')"

definition neat :: "char \<Rightarrow> char \<Rightarrow> bool" where
  \<comment> \<open>two neighbours in which no pass on blanks or on the case of letters finds a match\<close>
  "neat c d =
     ((is_blank c \<longrightarrow> \<not> is_blank d \<and> d \<noteq> LF) \<and> (c = LF \<longrightarrow> \<not> is_blank d) \<and>
      \<not> (is_lower c \<and> is_upper d))"

definition spaced :: "char \<Rightarrow> char \<Rightarrow> bool" where
  \<comment> \<open>two neighbours of which the first is no white space, or a space before none\<close>
  "spaced c d = (\<not> is_space c \<or> (c = CHR '' '' \<and> \<not> is_space d))"

fun must :: "(char \<Rightarrow> bool) \<Rightarrow> regex \<Rightarrow> bool" where
  \<comment> \<open>every match of the expression takes in a character of the class \<open>Q\<close>\<close>
  "must Q (Chr c) = Q c"
| "must Q (Cls P) = (\<forall>c. P c \<longrightarrow> Q c)"
| "must Q (Rep mn mx P) = (0 < mn \<and> (\<forall>c. P c \<longrightarrow> Q c))"
| "must Q (Then r1 r2) = (must Q r1 \<or> must Q r2)"
| "must Q (Alt r1 r2) = (must Q r1 \<and> must Q r2)"
| "must Q (Grp i r) = must Q r"
| "must Q Bol = False"
| "must Q Eol = False"
| "must Q Eps = False"

fun single_spaced :: "string \<Rightarrow> bool" where
  \<comment> \<open>every white space is one space before a character that is none\<close>
  "single_spaced [] = True"
| "single_spaced [c] = (\<not> is_space c)"
| "single_spaced (c # d # t) =
     ((\<not> is_space c \<or> (c = CHR '' '' \<and> \<not> is_space d)) \<and> single_spaced (d # t))"


section \<open>Example documents\<close>

definition el :: "string \<Rightarrow> (string \<times> string) list \<Rightarrow> element" where
  \<comment> \<open>a visible element\<close>
  "el t as =
     \<lparr>tagName = t, attributes = as, display = ''block'', visibility = ''visible'',
      opacity = ''1''\<rparr>"

definition exampleHost :: host where
  "exampleHost =
     \<lparr>hostname = ''example.org'',
      resolveURL = (\<lambda>ref. Some (''https://example.org/'' @ ref))\<rparr>"

definition page :: "node list \<Rightarrow> document" where
  \<comment> \<open>the document \<open><html><head></head><body>cs</body></html>\<close>\<close>
  "page cs =
     \<lparr>location = exampleHost,
      documentElement =
        Element (el ''html'' []) [Element (el ''head'' []) [], Element (el ''body'' []) cs]\<rparr>"

definition xAndSquare :: "node list" where
  \<comment> \<open>\<open><mi>x</mi><msup><mi>x</mi><mn>2</mn></msup>\<close>\<close>
  "xAndSquare =
     [Element (el ''mi'' []) [Text ''x''],
      Element (el ''msup'' [])
        [Element (el ''mi'' []) [Text ''x''], Element (el ''mn'' []) [Text ''2'']]]"

definition loneSuperscript :: node where
  \<comment> \<open>\<open><msup><mi>x</mi></msup>\<close>\<close>
  "loneSuperscript = Element (el ''msup'' []) [Element (el ''mi'' []) [Text ''x'']]"

definition brokenMathPage :: document where
  "brokenMathPage =
     page [Element (el ''p'' [])
             [Text ''The square of x is '', Element (el ''math'' []) [loneSuperscript]]]"

definition boxDiv :: node where
  \<comment> \<open>\<open><div class="Box">Pinned repositories of the user</div>\<close>\<close>
  "boxDiv = Element (el ''div'' [(''class'', ''Box'')]) [Text ''Pinned repositories of the user'']"

definition shortArticlePage :: document where
  \<comment> \<open>\<open><body><article>Hi</article><p>Plenty of words outside the article element</p></body>\<close>\<close>
  "shortArticlePage =
     page [Element (el ''article'' []) [Text ''Hi''],
           Element (el ''p'' []) [Text ''Plenty of words outside the article element'']]"

definition boldPage :: document where
  \<comment> \<open>the text \<open>**bold**\<close> alone in the body\<close>
  "boldPage = page [Text ''**bold**'']"

definition exponentPage :: document where
  \<comment> \<open>the text \<open>q**S\<close> alone in the body\<close>
  "exponentPage = page [Text ''q**S'']"

definition energyPage :: document where
  "energyPage = page [Text ''the energy $kT$ is conserved'']"

definition table2x2 :: node where
  \<comment> \<open>\<open><table><tbody><tr><td>a</td><td>b</td></tr><tr><td>c</td><td>d</td></tr></tbody></table>\<close>\<close>
  "table2x2 =
     Element (el ''table'' [])
       [Element (el ''tbody'' [])
          [Element (el ''tr'' [])
             [Element (el ''td'' []) [Text ''a''], Element (el ''td'' []) [Text ''b'']],
           Element (el ''tr'' [])
             [Element (el ''td'' []) [Text ''c''], Element (el ''td'' []) [Text ''d'']]]]"

definition toolbarPre :: node where
  \<comment> \<open>\<open><pre><div class="toolbar"><h2>Copy code</h2></div>let x = 1;</pre>\<close>\<close>
  "toolbarPre =
     Element (el ''pre'' [])
       [Element (el ''div'' [(''class'', ''toolbar'')])
          [Element (el ''h2'' []) [Text ''Copy code'']],
        Text ''let x = 1;'']"

definition inlineText :: "string \<Rightarrow> string \<Rightarrow> string \<Rightarrow> string" where
  \<comment> \<open>the text \<open>X$E$Y\<close>\<close>
  "inlineText X E Y = X @ ''$'' @ E @ ''$'' @ Y"

definition blockText :: "string \<Rightarrow> string" where
  \<comment> \<open>the text \<open>$$E$$\<close>\<close>
  "blockText E = ''$$'' @ E @ ''$$''"

definition sidebarArticlePage :: document where
  \<comment> \<open>\<open><div class="sidebar"><article><h2>Hidden heading</h2><p>Some words are here</p></article></div>\<close>
      in the body\<close>
  "sidebarArticlePage =
     page [Element (el ''div'' [(''class'', ''sidebar'')])
             [Element (el ''article'' [])
                [Element (el ''h2'' []) [Text ''Hidden heading''],
                 Element (el ''p'' []) [Text ''Some words are here'']]]]"

definition navDiv :: node where
  \<comment> \<open>\<open><div class="main-nav"><h2>Site menu</h2><math><msup><mi>x</mi></msup></math></div>\<close>\<close>
  "navDiv =
     Element (el ''div'' [(''class'', ''main-nav'')])
       [Element (el ''h2'' []) [Text ''Site menu''],
        Element (el ''math'' []) [loneSuperscript]]"

definition representativeFragments :: "string list" where
  "representativeFragments =
     [''# Title\<newline>\<newline>Some text here.\<newline>\<newline>- one\<newline>- two'',
      ''1. first\<newline>1. second'',
      ''| a | b |\<newline>| --- | --- |\<newline>| c | d |'',
      ''[text](http://example.org/x)'',
      ''![alt](http://example.org/a.png)'',
      ''The value $x^{2}$ is positive.'',
      ''$$E = mc^{2}$$'',
      ''```\<newline>code\<newline>```'',
      ''`code` and text'',
      ''> quote text'',
      ''*emphasis* here'',
      ''**two words** here'',
      ''Hello world. This is text.'']"

section \<open>Properties\<close>

lemma both_modes: "P True \<Longrightarrow> P False \<Longrightarrow> P (notionMode :: bool)"
  by (cases notionMode) simp_all

lemma children_xAndSquare: "mathChildren notionMode xAndSquare = Inr [''x'', ''x^{2}'']"
  by (rule both_modes [where P = "\<lambda>m. mathChildren m xAndSquare = Inr [''x'', ''x^{2}'']"];
      code_simp)

text \<open>
  Claim C5. A top-level math element without \<open>display="block"\<close> that wraps the
  identifier x and the superscript of x and 2 is rendered as \<open>$x x^{2}$\<close> with
  delimiters and as \<open>x x^{2}\<close>, without any dollar sign, in compact mode.
\<close>

theorem math_inline_rendering:
  assumes "lowerTag e = ''math''" and "getAttribute e ''display'' \<noteq> Some ''block''"
  shows "mathMLToLaTeX False (Element e xAndSquare) = Inr ''$x x^{2}$'' \<and>
         mathMLToLaTeX True (Element e xAndSquare) = Inr ''x x^{2}'' \<and>
         CHR ''$'' \<notin> set ''x x^{2}''"
  using assms by (simp add: children_xAndSquare)

theorem math_inline_rendering_witness:
  "mathMLToLaTeX False (Element (el ''math'' []) xAndSquare) = Inr ''$x x^{2}$'' \<and>
   mathMLToLaTeX True (Element (el ''math'' []) xAndSquare) = Inr ''x x^{2}'' \<and>
   CHR ''$'' \<notin> set ''x x^{2}''"
proof -
  have tag: "lowerTag (el ''math'' []) = ''math''" by code_simp
  have disp: "getAttribute (el ''math'' []) ''display'' \<noteq> Some ''block''" by code_simp
  show ?thesis by (rule math_inline_rendering [OF tag disp])
qed

text \<open>
  Claim C3 asks that a math node with fewer children than its kind expects is converted
  to a partial string. The code guards \<open>mroot\<close>, \<open>msubsup\<close>, \<open>mover\<close> and \<open>munder\<close>
  by the number of children, and does not guard \<open>msup\<close>, \<open>msub\<close>, \<open>mfrac\<close> and
  \<open>msqrt\<close>: there the conversion of the absent child raises, and the exception leaves
  the whole extraction.
\<close>

theorem missing_child_raises:
  "mathMLToLaTeX notionMode loneSuperscript = Inl TypeError \<and>
   mathMLToLaTeX notionMode (Element (el ''mfrac'' []) []) = Inl TypeError \<and>
   mathMLToLaTeX notionMode (Element (el ''msqrt'' []) []) = Inl TypeError \<and>
   extractPageContent brokenMathPage notionMode = Some (Inl TypeError)"
proof (rule both_modes [where notionMode = notionMode], goal_cases)
  case 1
  have "extractPageContent brokenMathPage True = Some (Inl TypeError)"
    by (subst extractPageContent.simps) code_simp
  moreover have "mathMLToLaTeX True loneSuperscript = Inl TypeError" by code_simp
  moreover have "mathMLToLaTeX True (Element (el ''mfrac'' []) []) = Inl TypeError" by code_simp
  moreover have "mathMLToLaTeX True (Element (el ''msqrt'' []) []) = Inl TypeError" by code_simp
  ultimately show ?case by simp
next
  case 2
  have "extractPageContent brokenMathPage False = Some (Inl TypeError)"
    by (subst extractPageContent.simps) code_simp
  moreover have "mathMLToLaTeX False loneSuperscript = Inl TypeError" by code_simp
  moreover have "mathMLToLaTeX False (Element (el ''mfrac'' []) []) = Inl TypeError" by code_simp
  moreover have "mathMLToLaTeX False (Element (el ''msqrt'' []) []) = Inl TypeError" by code_simp
  ultimately show ?case by simp
qed

lemma vocabulary_match_is_skipped:
  assumes "t \<in> set skipClasses \<or> t \<in> set githubSkipClasses"
    and "(\<exists>c\<in>set (classList e). includes_str (toLowerCase c) t) \<or>
         includes_str (toLowerCase (elem_id e)) t"
  shows "shouldSkipElement (Element e cs)"
proof -
  from assms have "matchesVocabulary skipClasses e \<or> matchesVocabulary githubSkipClasses e"
    unfolding matchesVocabulary_def list_ex_iff by blast
  then show ?thesis by auto
qed

text \<open>
  Claim C10 has every vocabulary term matched without regard to case, on every site.
  The code does match on every site, and by substring (a class \<open>gradient\<close> or
  \<open>border-top\<close> is skipped), but it lower-cases the class name and the id and leaves
  the term as written, so the terms written with a capital letter (\<open>Box\<close>,
  \<open>ActionList\<close>, \<open>SelectPanel\<close>) match nothing: an element of class \<open>Box\<close> is kept and
  its text is extracted.
\<close>

theorem capitalised_term_never_matches:
  "shouldSkipElement (Element (el ''div'' [(''class'', ''gradient'')]) []) \<and>
   shouldSkipElement (Element (el ''div'' [(''class'', ''border-top'')]) []) \<and>
   ''Box'' \<in> set githubSkipClasses \<and> includes_str ''Box'' ''Box'' \<and>
   \<not> shouldSkipElement boxDiv \<and>
   extractPageContent (page [boxDiv]) False = Some (Inr ''Pinned repositories of the user'') \<and>
   extractPageContent (page [boxDiv]) True = Some (Inr ''Pinned repositories of the user'')"
proof -
  have 1: "''Box'' \<in> set githubSkipClasses" by code_simp
  have 2: "includes_str ''Box'' ''Box''" by code_simp
  have 3: "\<not> shouldSkipElement boxDiv" by code_simp
  have 4: "extractPageContent (page [boxDiv]) False = Some (Inr ''Pinned repositories of the user'')"
    by (subst extractPageContent.simps) code_simp
  have 5: "extractPageContent (page [boxDiv]) True = Some (Inr ''Pinned repositories of the user'')"
    by (subst extractPageContent.simps) code_simp
  have 6: "shouldSkipElement (Element (el ''div'' [(''class'', ''gradient'')]) [])" by code_simp
  have 7: "shouldSkipElement (Element (el ''div'' [(''class'', ''border-top'')]) [])" by code_simp
  from 1 2 3 4 5 6 7 show ?thesis by blast
qed

subsection \<open>The orchestrator, case by case\<close>

lemma extract_raises:
  assumes "render doc notionMode (findMainContent doc) = Inl err"
  shows "extractPageContent doc notionMode = Some (Inl err)"
  using assms by (subst extractPageContent.simps) (simp add: Let_def)

lemma extract_returns:
  assumes "render doc notionMode (findMainContent doc) = Inr raw"
    and "\<not> (wordCount (cleanup notionMode raw) < 3 \<and> \<not> sameNode (findMainContent doc) (body doc))"
  shows "extractPageContent doc notionMode = Some (Inr (cleanup notionMode raw))"
  using assms by (subst extractPageContent.simps) (auto simp: Let_def)

lemma extract_never_returns:
  assumes raw: "render doc notionMode (findMainContent doc) = Inr raw"
    and few: "wordCount (cleanup notionMode raw) < 3"
    and other: "\<not> sameNode (findMainContent doc) (body doc)"
  shows "extractPageContent doc notionMode = None"
proof -
  have "d = doc \<longrightarrow> m = notionMode \<longrightarrow> False" if "extractPageContent d m = Some y" for d m y
    using that
  proof (induct rule: extractPageContent.raw_induct [rotated 1, consumes 1, case_names step])
    case (step self d m y)
    show ?case
    proof (intro impI)
      assume "d = doc" and "m = notionMode"
      with step(2) raw few other have "self doc notionMode = Some y"
        by (simp add: Let_def)
      with step(1) show False by blast
    qed
  qed
  then show ?thesis by (cases "extractPageContent doc notionMode") auto
qed

lemma extract_returns_iff:
  "(extractPageContent doc notionMode = Some (Inr s)) =
     (\<exists>raw. render doc notionMode (findMainContent doc) = Inr raw \<and>
            \<not> (wordCount (cleanup notionMode raw) < 3 \<and>
               \<not> sameNode (findMainContent doc) (body doc)) \<and>
            s = cleanup notionMode raw)"
proof (cases "render doc notionMode (findMainContent doc)")
  case (Inl err)
  then show ?thesis by (simp add: extract_raises)
next
  case (Inr raw)
  show ?thesis
  proof (cases "wordCount (cleanup notionMode raw) < 3 \<and>
      \<not> sameNode (findMainContent doc) (body doc)")
    case True
    from True have few: "wordCount (cleanup notionMode raw) < 3"
      and other: "\<not> sameNode (findMainContent doc) (body doc)" by blast+
    have "extractPageContent doc notionMode = None"
      by (rule extract_never_returns [OF Inr few other])
    with Inr True show ?thesis by simp
  next
    case False
    with Inr have "extractPageContent doc notionMode = Some (Inr (cleanup notionMode raw))"
      by (intro extract_returns)
    with Inr False show ?thesis by auto
  qed
qed

text \<open>
  Claim C1 has the near-empty result of a root other than the body replaced by the
  result of a second pass over the body. The self-call of the code takes no root: it
  locates the same element again. For the page below the located root is the article,
  its cleaned text is the single word \<open>Hi\<close>, the body would give eight words, and the
  call never returns them.
\<close>

theorem retry_locates_same_root:
  "map_option path (findMainContent shortArticlePage) = Some [1, 0] \<and>
   map_option path (body shortArticlePage) = Some [1] \<and>
   render shortArticlePage False (findMainContent shortArticlePage) = Inr ''Hi\<newline>\<newline>'' \<and>
   cleanup False ''Hi\<newline>\<newline>'' = ''Hi'' \<and>
   wordCount ''Hi'' = 1 \<and>
   map_sum id (cleanup False) (render shortArticlePage False (body shortArticlePage)) =
     Inr ''Hi\<newline>\<newline>Plenty of words outside the article element'' \<and>
   extractPageContent shortArticlePage False \<noteq>
     Some (Inr ''Hi\<newline>\<newline>Plenty of words outside the article element'')"
proof -
  have root: "map_option path (findMainContent shortArticlePage) = Some [1, 0]" by code_simp
  have bdy: "map_option path (body shortArticlePage) = Some [1]" by code_simp
  have raw: "render shortArticlePage False (findMainContent shortArticlePage) = Inr ''Hi\<newline>\<newline>''"
    by code_simp
  have clean: "cleanup False ''Hi\<newline>\<newline>'' = ''Hi''" by code_simp
  have count: "wordCount ''Hi'' = 1" by code_simp
  have whole: "map_sum id (cleanup False) (render shortArticlePage False (body shortArticlePage)) =
     Inr ''Hi\<newline>\<newline>Plenty of words outside the article element''" by code_simp
  have "extractPageContent shortArticlePage False = None"
    by (rule extract_never_returns [OF raw]) (simp_all add: clean count sameNode_def root bdy)
  with root bdy raw clean count whole show ?thesis by simp
qed

text \<open>
  Claim C2 has the retry capped at one. The self-call passes the same arguments on the
  same document, so the call that reaches it reaches it again: on the page above, in
  either mode, \<open>extractPageContent\<close> returns nothing.
\<close>

theorem short_article_never_returns:
  "extractPageContent shortArticlePage False = None \<and>
   extractPageContent shortArticlePage True = None"
proof -
  have root: "map_option path (findMainContent shortArticlePage) = Some [1, 0]" by code_simp
  have bdy: "map_option path (body shortArticlePage) = Some [1]" by code_simp
  have other: "\<not> sameNode (findMainContent shortArticlePage) (body shortArticlePage)"
    by (simp add: sameNode_def root bdy)
  have rawF: "render shortArticlePage False (findMainContent shortArticlePage) = Inr ''Hi\<newline>\<newline>''"
    by code_simp
  have rawT: "render shortArticlePage True (findMainContent shortArticlePage) = Inr ''Hi\<newline>\<newline>''"
    by code_simp
  have fewF: "wordCount (cleanup False ''Hi\<newline>\<newline>'') < 3" by code_simp
  have fewT: "wordCount (cleanup True ''Hi\<newline>\<newline>'') < 3" by code_simp
  show ?thesis
    using extract_never_returns [OF rawF fewF other] extract_never_returns [OF rawT fewT other]
    by simp
qed


text \<open>
  Claim C4, as the code has it: the text \<open>q**S\<close> is extracted as \<open>q^{S}\<close>; the text
  \<open>**bold**\<close> standing alone is left as it is by the repair of the text node
  (\<open>protectLaTeX\<close>), and the fourth pass of the cleanup, which rewrites \<open>**word**\<close>
  wherever it stands, turns it into \<open>^{bold}\<close> in the final output. (A \<open>strong\<close>
  element around the one word is rendered as the bare word: a single word in bold is
  read as notation throughout.)
\<close>

theorem exponent_repair_examples:
  "extractPageContent exponentPage False = Some (Inr ''q^{S}'') \<and>
   extractPageContent exponentPage True = Some (Inr ''q^{S}'') \<and>
   protectLaTeX ''**bold**'' = ''**bold**'' \<and>
   render boldPage False (findMainContent boldPage) = Inr ''**bold**'' \<and>
   extractPageContent boldPage False = Some (Inr ''^{bold}'') \<and>
   extractPageContent boldPage True = Some (Inr ''^{bold}'') \<and>
   extractPageContent (page [Element (el ''strong'' []) [Text ''bold'']]) False =
     Some (Inr ''bold'')"
proof -
  have 1: "extractPageContent exponentPage False = Some (Inr ''q^{S}'')"
    by (subst extractPageContent.simps) code_simp
  have 2: "extractPageContent exponentPage True = Some (Inr ''q^{S}'')"
    by (subst extractPageContent.simps) code_simp
  have 3: "protectLaTeX ''**bold**'' = ''**bold**''" by code_simp
  have 4: "render boldPage False (findMainContent boldPage) = Inr ''**bold**''" by code_simp
  have 5: "extractPageContent boldPage False = Some (Inr ''^{bold}'')"
    by (subst extractPageContent.simps) code_simp
  have 6: "extractPageContent boldPage True = Some (Inr ''^{bold}'')"
    by (subst extractPageContent.simps) code_simp
  have 7: "extractPageContent (page [Element (el ''strong'' []) [Text ''bold'']]) False =
     Some (Inr ''bold'')"
    by (subst extractPageContent.simps) code_simp
  from 1 2 3 4 5 6 7 show ?thesis by blast
qed

text \<open>Claim C4 as stated fails: the final output for \<open>**bold**\<close> is not \<open>**bold**\<close>.\<close>

theorem bold_alone_is_rewritten:
  "extractPageContent boldPage False \<noteq> Some (Inr ''**bold**'')"
proof -
  have "extractPageContent boldPage False = Some (Inr ''^{bold}'')"
    by (subst extractPageContent.simps) code_simp
  then show ?thesis by simp
qed

subsection \<open>Passes that find no match\<close>

text \<open>
  A pass that must take in a harsh character finds no match in a text without one, and
  leaves it as it is. The passes that need no harsh character (on blanks, on a small
  letter before a capital, on two stars in a row, on runs of newlines, on the end of
  a table row, on white space at either end, and the trimming of the lines) are
  treated one by one, on a calm fragment that may stand between empty lines, as a
  paragraph or a block of math leaves it.
\<close>

lemma repeat_blocked:
  assumes "\<And>p' s'. set s' \<subseteq> set s \<Longrightarrow> k p' s' = None"
  shows "repeat mn mx P prev s k = None"
  using assms
proof (induction s arbitrary: mn mx prev)
  case Nil
  then show ?case by simp
next
  case (Cons x xs)
  have inner: "repeat mn' mx' P prev' xs k = None" for mn' mx' prev'
    by (rule Cons.IH) (rule Cons.prems, auto)
  have here: "k prev (x # xs) = None" by (rule Cons.prems) simp
  show ?case by (simp add: inner here)
qed

lemma rmatch_blocked:
  assumes "\<And>p' s' c'. set s' \<subseteq> set rest \<Longrightarrow> k (p', s', c') = None"
  shows "rmatch ml r (prev, rest, caps) k = None"
  using assms
proof (induction r arbitrary: prev rest caps k)
  case (Chr c)
  show ?case
  proof (cases rest)
    case Nil
    then show ?thesis by simp
  next
    case (Cons x xs)
    with Chr [of xs "Some x" caps] show ?thesis by auto
  qed
next
  case (Cls P)
  show ?case
  proof (cases rest)
    case Nil
    then show ?thesis by simp
  next
    case (Cons x xs)
    with Cls [of xs "Some x" caps] show ?thesis by auto
  qed
next
  case (Rep mn mx P)
  show ?case by (simp, rule repeat_blocked, rule Rep, assumption)
next
  case (Then r1 r2)
  show ?case
  proof (simp, rule Then.IH(1))
    fix p' s' c'
    assume sub: "set s' \<subseteq> set rest"
    show "rmatch ml r2 (p', s', c') k = None"
    proof (rule Then.IH(2))
      fix p'' s'' c''
      assume "set s'' \<subseteq> set s'"
      with sub have "set s'' \<subseteq> set rest" by blast
      then show "k (p'', s'', c'') = None" by (rule Then.prems)
    qed
  qed
next
  case (Alt r1 r2)
  have "rmatch ml r1 (prev, rest, caps) k = None" by (rule Alt.IH(1)) (rule Alt.prems)
  moreover have "rmatch ml r2 (prev, rest, caps) k = None" by (rule Alt.IH(2)) (rule Alt.prems)
  ultimately show ?case by simp
next
  case (Grp i r)
  show ?case by (simp, rule Grp.IH) (simp add: Grp.prems)
next
  case Bol
  then show ?case by (auto split: option.splits)
next
  case Eol
  then show ?case by (auto split: list.splits)
next
  case Eps
  then show ?case by simp
qed

lemma repeat_must:
  assumes "0 < mn" and "\<forall>c\<in>set s. \<not> P c"
  shows "repeat mn mx P prev s k = None"
  using assms by (cases s) auto

lemma rmatch_must:
  assumes "must Q r" and "\<forall>c\<in>set rest. \<not> Q c"
  shows "rmatch ml r (prev, rest, caps) k = None"
  using assms
proof (induction r arbitrary: prev rest caps k)
  case (Chr c)
  then show ?case by (cases rest) auto
next
  case (Cls P)
  then show ?case by (cases rest) auto
next
  case (Rep mn mx P)
  then show ?case by (auto intro: repeat_must)
next
  case (Then r1 r2)
  from Then.prems(1) have "must Q r1 \<or> must Q r2" by simp
  then show ?case
  proof
    assume "must Q r1"
    then show ?thesis using Then.IH(1) Then.prems(2) by simp
  next
    assume m2: "must Q r2"
    show ?thesis
    proof (simp, rule rmatch_blocked)
      fix p' s' c'
      assume "set s' \<subseteq> set rest"
      with Then.prems(2) have "\<forall>c\<in>set s'. \<not> Q c" by blast
      with m2 show "rmatch ml r2 (p', s', c') k = None" by (rule Then.IH(2))
    qed
  qed
next
  case (Alt r1 r2)
  then show ?case by simp
next
  case (Grp i r)
  then show ?case by simp
qed simp_all

lemma exec_at_must:
  assumes "must Q r" and "\<forall>c\<in>set s. \<not> Q c"
  shows "exec_at ml r prev s = None"
  using assms by (simp add: exec_at_def rmatch_must)

lemma replace_untouched:
  assumes "must Q r" and "\<forall>c\<in>set s. \<not> Q c"
  shows "replace_with ml r f prev s = s"
  using assms(2)
proof (induction s arbitrary: prev)
  case Nil
  show ?case by (subst replace_with.simps) (simp add: exec_at_must [OF assms(1)])
next
  case (Cons x xs)
  have "exec_at ml r prev (x # xs) = None" by (rule exec_at_must [OF assms(1) Cons.prems])
  moreover have "replace_with ml r f (Some x) xs = xs" by (rule Cons.IH) (use Cons.prems in simp)
  ultimately show ?case by (subst replace_with.simps) simp
qed


lemma repeat_all:
  assumes "\<forall>c\<in>set s. P c" and "k (last_of prev s) [] = Some y" and "mn \<le> length s"
  shows "repeat mn None P prev s k = Some y"
  using assms
proof (induction s arbitrary: mn prev)
  case Nil
  then show ?case by (simp add: last_of_def)
next
  case (Cons x xs)
  have "last_of (Some x) xs = last_of prev (x # xs)" by (simp add: last_of_def)
  with Cons.prems have "repeat (mn - 1) None P (Some x) xs k = Some y"
    by (intro Cons.IH) auto
  with Cons.prems show ?case by simp
qed

lemma repeat_run:
  assumes "\<forall>c\<in>set E. P c" and "\<not> P x" and "mn \<le> length E"
    and "k (last_of prev E) (x # xs) \<noteq> None"
  shows "repeat mn None P prev (E @ x # xs) k = k (last_of prev E) (x # xs)"
  using assms
proof (induction E arbitrary: mn prev)
  case Nil
  then show ?case by (simp add: last_of_def)
next
  case (Cons e E)
  have l: "last_of (Some e) E = last_of prev (e # E)" by (simp add: last_of_def)
  with Cons.prems have "repeat (mn - 1) None P (Some e) (E @ x # xs) k = k (last_of (Some e) E) (x # xs)"
    by (intro Cons.IH) auto
  with Cons.prems l show ?case by auto
qed

text \<open>Characters.\<close>

lemma space_facts: "is_space LF" "is_space CHR 0x0D" "is_space CHR 0x09" "is_space CHR '' ''"
  by (simp_all add: is_space_def in_range_def less_eq_char_def)

lemma blank_is_space: "is_blank c \<Longrightarrow> is_space c"
  using space_facts by (auto simp: is_blank_def)

lemma space_is_dot: "is_dot CHR '' ''"
  by (simp add: is_dot_def is_line_terminator_def)

lemma space_no_letter: "\<not> is_upper CHR '' ''" "\<not> is_lower CHR '' ''" "\<not> is_upper LF" "\<not> is_lower LF"
  by (simp_all add: is_upper_def is_lower_def in_range_def less_eq_char_def)

lemma harsh_chars: "harsh LF" "harsh CHR ''[''" "harsh CHR ''$''"
  by (simp_all add: harsh_def gentle_def space_facts)

lemma harsh_LF: "is_LF c \<Longrightarrow> harsh c"
  by (simp add: is_LF_def harsh_chars)

lemma harsh_sentence_end: "is_sentence_end c \<Longrightarrow> harsh c"
  by (auto simp: harsh_def gentle_def is_sentence_end_def)

lemmas harsh_classes = harsh_LF harsh_sentence_end

lemma gentle_not_space: "gentle c \<Longrightarrow> \<not> is_space c"
  by (simp add: gentle_def)

lemma gentle_not_blank: "gentle c \<Longrightarrow> \<not> is_blank c"
  using blank_is_space gentle_not_space by blast

lemma gentle_not_LF: "gentle c \<Longrightarrow> c \<noteq> LF" "gentle c \<Longrightarrow> \<not> is_LF c"
  using space_facts(1) by (auto simp: gentle_def is_LF_def)

lemma gentle_is_dot: "gentle c \<Longrightarrow> is_dot c"
  using space_facts by (auto simp: gentle_def is_dot_def is_line_terminator_def)

lemma quiet_gentle: "quiet c \<Longrightarrow> gentle c"
  by (simp add: quiet_def gentle_def)

text \<open>Calm fragments.\<close>

lemma calm_from_tail: "calm_from (c # t) \<Longrightarrow> calm_from t"
  by (cases t) simp_all

lemma calm_from_chars: "calm_from s \<Longrightarrow> c \<in> set s \<Longrightarrow> \<not> harsh c"
  by (induction s rule: calm_from.induct) (auto simp: harsh_def)

lemma calm_from_last: "calm_from s \<Longrightarrow> s \<noteq> [] \<Longrightarrow> gentle (last s)"
  by (induction s rule: calm_from.induct) auto

lemma calm_from_neat: "calm_from s \<Longrightarrow> successively steady s \<Longrightarrow> successively neat s"
proof (induction s rule: calm_from.induct)
  case (3 c d t)
  then have "neat c d"
    using gentle_not_blank gentle_not_LF [of d] gentle_not_LF [of c] space_facts
    by (auto simp: neat_def is_blank_def steady_def)
  with 3 show ?case by simp
qed simp_all

lemma absent_single: "x \<notin> set s \<Longrightarrow> successively (single x) s"
  by (induction s) (auto simp: single_def successively_Cons)

lemma single_tail: "successively (single x) (c # u) \<Longrightarrow> successively (single x) u"
  by (cases u) simp_all

lemma single_insert:
  assumes "successively (single x) (u @ v)" and "y \<noteq> x"
  shows "successively (single x) (u @ y # v)"
  using assms by (auto simp: successively_append_iff successively_Cons single_def)

lemma steady_single: "successively steady s \<Longrightarrow> successively (single CHR ''*'') s"
  by (erule successively_mono) (simp add: steady_def)

lemma plain_from_calm: "plain_from s \<Longrightarrow> calm_from s"
  by (induction s rule: plain_from.induct) (auto simp: quiet_gentle)

lemma plain_from_head: "plain_from (d # t) \<Longrightarrow> \<not> is_upper d"
  by (cases t) (auto simp: quiet_def space_no_letter)

lemma plain_from_steady: "plain_from s \<Longrightarrow> successively steady s"
proof (induction s rule: plain_from.induct)
  case (3 c d t)
  then have "\<not> is_upper d" by (intro plain_from_head [of d t]) simp
  moreover from 3 have "c \<noteq> CHR ''*''" by (auto simp: quiet_def)
  ultimately have "steady c d" by (simp add: steady_def single_def)
  with 3 show ?case by simp
qed simp_all

lemma plain_calm: "plain s \<Longrightarrow> calm s"
proof -
  assume p: "plain s"
  then have "plain_from s" by (simp add: plain_def)
  then have "calm_from s" and "successively steady s"
    by (rule plain_from_calm, rule plain_from_steady)
  moreover from p have "case s of [] \<Rightarrow> True | c # t \<Rightarrow> gentle c"
    by (auto simp: plain_def quiet_gentle split: list.splits)
  ultimately show ?thesis unfolding calm_def by blast
qed

text \<open>Passes that need a harsh character.\<close>

lemma must_harsh:
  "must harsh re_newlines4" "must harsh re_blanks_newline" "must harsh re_newline_blanks"
  "must harsh re_sentence_capital" "must harsh re_punctuation"
  "must harsh re_newlines3" "must harsh re_row_end" "must harsh re_empty_target"
  "must harsh re_empty_text" "must harsh re_empty_cell"
  "must harsh re_newlines2_more" "must harsh re_sentence_newline" "must harsh re_dollar2"
  "must harsh re_dollar"
  by (simp_all add: re_newlines4_def re_blanks_newline_def re_newline_blanks_def
      re_sentence_capital_def re_punctuation_def re_newlines3_def re_row_end_def
      re_empty_target_def re_empty_text_def re_empty_cell_def re_newlines2_more_def
      re_sentence_newline_def re_dollar2_def re_dollar_def Plus_def Star_def
      harsh_chars harsh_classes)

lemma calm_untouched:
  assumes "must harsh r" and "calm_from s"
  shows "replace_with ml r f prev s = s"
  by (rule replace_untouched [OF assms(1)]) (use assms(2) calm_from_chars in blast)

text \<open>Passes on neighbours.\<close>

lemma replace_nowhere:
  assumes none: "\<And>u p. P u \<Longrightarrow> exec_at ml r p u = None"
    and tail: "\<And>c u. P (c # u) \<Longrightarrow> P u"
    and "P s"
  shows "replace_with ml r f prev s = s"
  using assms(3)
proof (induction s arbitrary: prev)
  case Nil
  then show ?case by (subst replace_with.simps) (simp add: none)
next
  case (Cons c s)
  from Cons.prems have "P s" by (rule tail)
  then have "replace_with ml r f (Some c) s = s" by (rule Cons.IH)
  with Cons.prems show ?case by (subst replace_with.simps) (simp add: none)
qed

lemma neat_tail: "successively neat (c # u) \<Longrightarrow> successively neat u"
  by (cases u) simp_all

lemma exec_blanks_newline: "successively neat s \<Longrightarrow> exec_at ml re_blanks_newline p s = None"
proof (cases s)
  case Nil
  then show ?thesis by (simp add: exec_at_def re_blanks_newline_def Plus_def)
next
  case (Cons c t)
  assume "successively neat s"
  with Cons show ?thesis
    by (cases t) (auto simp: exec_at_def re_blanks_newline_def Plus_def neat_def)
qed

lemma exec_newline_blanks: "successively neat s \<Longrightarrow> exec_at ml re_newline_blanks p s = None"
proof (cases s)
  case Nil
  then show ?thesis by (simp add: exec_at_def re_newline_blanks_def Plus_def)
next
  case (Cons c t)
  assume "successively neat s"
  with Cons show ?thesis
    by (cases t) (auto simp: exec_at_def re_newline_blanks_def Plus_def neat_def)
qed

lemma exec_blanks2: "successively neat s \<Longrightarrow> exec_at ml re_blanks2 p s = None"
proof (cases s)
  case Nil
  then show ?thesis by (simp add: exec_at_def re_blanks2_def)
next
  case (Cons c t)
  assume "successively neat s"
  with Cons show ?thesis
    by (cases t) (auto simp: exec_at_def re_blanks2_def neat_def)
qed

lemma exec_camel: "successively neat s \<Longrightarrow> exec_at ml re_camel p s = None"
proof (cases s)
  case Nil
  then show ?thesis by (simp add: exec_at_def re_camel_def)
next
  case (Cons c t)
  assume "successively neat s"
  with Cons show ?thesis
    by (cases t) (auto simp: exec_at_def re_camel_def neat_def)
qed

lemma neat_untouched:
  assumes "successively neat s"
  shows "replace_with ml re_blanks_newline f prev s = s"
    and "replace_with ml re_newline_blanks f prev s = s"
    and "replace_with ml re_blanks2 f prev s = s"
    and "replace_with ml re_camel f prev s = s"
  by (rule replace_nowhere [where P = "successively neat"], rule exec_blanks_newline, assumption,
      erule neat_tail, rule assms,
      rule replace_nowhere [where P = "successively neat"], rule exec_newline_blanks, assumption,
      erule neat_tail, rule assms,
      rule replace_nowhere [where P = "successively neat"], rule exec_blanks2, assumption,
      erule neat_tail, rule assms,
      rule replace_nowhere [where P = "successively neat"], rule exec_camel, assumption,
      erule neat_tail, rule assms)

text \<open>
  Passes that need two given characters in a row. What a matcher hands to its
  continuation is a final part of its text, so a continuation that fails on every
  final part makes the whole match fail.
\<close>

lemma repeat_closed:
  assumes none: "\<And>p' s'. Q s' \<Longrightarrow> k p' s' = None" and tail: "\<And>c u. Q (c # u) \<Longrightarrow> Q u"
    and "Q s"
  shows "repeat mn mx P prev s k = None"
  using assms(3)
proof (induction s arbitrary: mn mx prev)
  case Nil
  then show ?case by (simp add: none)
next
  case (Cons x xs)
  from Cons.prems have "Q xs" by (rule tail)
  then have "repeat mn' mx' P prev' xs k = None" for mn' mx' prev' by (rule Cons.IH)
  with Cons.prems show ?case by (simp add: none)
qed

lemma rmatch_closed:
  assumes tail: "\<And>c u. Q (c # u) \<Longrightarrow> Q u"
    and "\<And>p' s' c'. Q s' \<Longrightarrow> k (p', s', c') = None" and "Q rest"
  shows "rmatch ml r (prev, rest, caps) k = None"
  using assms(2,3)
proof (induction r arbitrary: prev rest caps k)
  case (Chr c)
  show ?case
  proof (cases rest)
    case Nil
    then show ?thesis by simp
  next
    case (Cons x xs)
    with Chr.prems(2) have "Q xs" using tail by blast
    with Cons Chr.prems(1) show ?thesis by simp
  qed
next
  case (Cls P)
  show ?case
  proof (cases rest)
    case Nil
    then show ?thesis by simp
  next
    case (Cons x xs)
    with Cls.prems(2) have "Q xs" using tail by blast
    with Cons Cls.prems(1) show ?thesis by simp
  qed
next
  case (Rep mn mx P)
  show ?case
    by (simp, rule repeat_closed [where Q = Q]) (use Rep.prems tail in auto)
next
  case (Then r1 r2)
  show ?case
  proof -
    have "rmatch ml r2 (p', s', c') k = None" if "Q s'" for p' s' c'
      using Then.prems(1) that by (rule Then.IH(2))
    then have "rmatch ml r1 (prev, rest, caps) (\<lambda>st'. rmatch ml r2 st' k) = None"
      using Then.prems(2) by (rule Then.IH(1))
    then show ?thesis by simp
  qed
next
  case (Alt r1 r2)
  have "rmatch ml r1 (prev, rest, caps) k = None"
    by (rule Alt.IH(1)) (use Alt.prems in auto)
  moreover have "rmatch ml r2 (prev, rest, caps) k = None"
    by (rule Alt.IH(2)) (use Alt.prems in auto)
  ultimately show ?case by simp
next
  case (Grp i r)
  show ?case by (simp, rule Grp.IH) (use Grp.prems in auto)
next
  case Bol
  then show ?case by (auto split: option.splits)
next
  case Eol
  then show ?case by (auto split: list.splits)
next
  case Eps
  then show ?case by simp
qed

lemma exec_two_first:
  assumes "successively (single x) s"
  shows "exec_at ml (Then (Chr x) (Then (Chr x) r)) p s = None"
  using assms by (cases s; cases "tl s") (auto simp: exec_at_def single_def)

lemma exec_two_second:
  assumes "successively (single x) s"
  shows "exec_at ml (Then r1 (Then (Chr x) (Then (Chr x) r))) p s = None"
proof -
  have "rmatch ml (Then r1 (Then (Chr x) (Then (Chr x) r))) (p, s, caps) k = None" for caps
    and k :: "mstate \<Rightarrow> mstate option"
  proof (simp, rule rmatch_closed [where Q = "successively (single x)"])
    fix p' s' c'
    assume "successively (single x) s'"
    then show "rmatch ml (Chr x) (p', s', c') (\<lambda>st'. rmatch ml (Chr x) st' (\<lambda>st'. rmatch ml r st' k)) = None"
      by (cases s'; cases "tl s'") (auto simp: single_def)
  qed (erule single_tail, rule assms)
  then show ?thesis by (simp add: exec_at_def)
qed

lemma two_untouched:
  assumes "\<And>u p. successively (single x) u \<Longrightarrow> exec_at ml r p u = None"
    and "successively (single x) s"
  shows "replace_with ml r f prev s = s"
  by (rule replace_nowhere [where P = "successively (single x)"])
     (erule assms(1), erule single_tail, rule assms(2))

lemma stars_untouched:
  assumes "successively (single CHR ''*'') s"
  shows "replace_all re_word_stars_caps_stars t s = s"
    and "replace_all re_word_stars_word_stars t s = s"
    and "replace_all re_word_stars_caps t s = s"
    and "replace_all re_word_stars_word t s = s"
    and "replace_all re_stars_caps_stars t s = s"
    and "replace_all re_stars_word_stars t s = s"
  unfolding replace_all_def re_word_stars_caps_stars_def re_word_stars_word_stars_def
    re_word_stars_caps_def re_word_stars_word_def re_stars_caps_stars_def
    re_stars_word_stars_def seqs.simps
  by (rule two_untouched [OF _ assms], (erule exec_two_second | erule exec_two_first))+

lemma unders_untouched:
  assumes "successively (single CHR ''_'') s"
  shows "replace_all re_word_unders_word t s = s"
    and "replace_all re_unders_text_unders t s = s"
  unfolding replace_all_def re_word_unders_word_def re_unders_text_unders_def seqs.simps
  by (rule two_untouched [OF _ assms], (erule exec_two_second | erule exec_two_first))+

text \<open>Runs of newlines.\<close>

lemma replace_skip:
  assumes "\<And>c u p. c \<in> set s \<Longrightarrow> exec_at ml r p (c # u) = None"
  shows "replace_with ml r f prev (s @ t) = s @ replace_with ml r f (last_of prev s) t"
  using assms
proof (induction s arbitrary: prev)
  case Nil
  show ?case by (simp add: last_of_def)
next
  case (Cons c s)
  have "replace_with ml r f (Some c) (s @ t) = s @ replace_with ml r f (last_of (Some c) s) t"
    by (rule Cons.IH) (rule Cons.prems, simp)
  moreover have "exec_at ml r prev (c # s @ t) = None" by (rule Cons.prems) simp
  moreover have "last_of (Some c) s = last_of prev (c # s)" by (simp add: last_of_def)
  ultimately show ?case by (subst replace_with.simps) simp
qed

lemma exec_run_start: "0 < k \<Longrightarrow> \<not> P c \<Longrightarrow> exec_at ml (Rep k mx P) p (c # u) = None"
  by (simp add: exec_at_def)

lemma run_end:
  assumes "2 < k" and "B = [] \<or> B = [LF, LF]"
  shows "replace_with ml (Rep k None is_LF) f p B = B"
proof -
  have 0: "replace_with ml (Rep k None is_LF) f q [] = []" for q
    using assms(1) by (subst replace_with.simps) (simp add: exec_at_def)
  have 1: "replace_with ml (Rep k None is_LF) f q [LF] = [LF]" for q
    using assms(1) by (subst replace_with.simps) (simp add: exec_at_def 0 is_LF_def)
  have 2: "replace_with ml (Rep k None is_LF) f q [LF, LF] = [LF, LF]" for q
    using assms(1) by (subst replace_with.simps) (simp add: exec_at_def 1 is_LF_def)
  from assms(2) show ?thesis using 0 2 by auto
qed

lemma runs_kept:
  assumes "2 < k" and "S \<noteq> []" and "\<forall>c\<in>set S. \<not> is_LF c"
    and "A = [] \<or> A = [LF, LF]" and "B = [] \<or> B = [LF, LF]"
  shows "replace_with ml (Rep k None is_LF) f prev (A @ S @ B) = A @ S @ B"
proof -
  have mid: "replace_with ml (Rep k None is_LF) f q (S @ B) = S @ B" for q
  proof -
    have "replace_with ml (Rep k None is_LF) f q (S @ B) =
        S @ replace_with ml (Rep k None is_LF) f (last_of q S) B"
      by (rule replace_skip) (use assms(1,3) in \<open>simp add: exec_run_start\<close>)
    then show ?thesis by (simp add: run_end [OF assms(1,5)])
  qed
  from assms(2) obtain e S' where S: "S = e # S'" by (cases S) auto
  with assms(3) have e: "\<not> is_LF e" by simp
  have one: "replace_with ml (Rep k None is_LF) f q (LF # S @ B) = LF # S @ B" for q
    using assms(1) e
    by (subst replace_with.simps) (simp add: exec_at_def is_LF_def S mid [unfolded S, simplified])
  have two: "replace_with ml (Rep k None is_LF) f q (LF # LF # S @ B) = LF # LF # S @ B" for q
    using assms(1) e
    by (subst replace_with.simps) (simp add: exec_at_def is_LF_def S one [unfolded S, simplified])
  from assms(4) show ?thesis using mid two by auto
qed

text \<open>White space at the start and at the end.\<close>

lemma expand_empty: "expand [] = (\<lambda>m caps. [])"
  by (simp add: fun_eq_iff)

lemma exec_outer_gentle: "gentle c \<Longrightarrow> exec_at False re_outer_space p (c # u) = None"
  by (simp add: exec_at_def re_outer_space_def Plus_def gentle_not_space split: option.splits)

lemma exec_outer_inner:
  "gentle d \<Longrightarrow> exec_at False re_outer_space (Some q) (CHR '' '' # d # u) = None"
  by (simp add: exec_at_def re_outer_space_def Plus_def gentle_not_space space_facts)

lemma outer_space_mid:
  assumes "calm_from S" and "S \<noteq> []" and "prev = None \<Longrightarrow> gentle (hd S)"
  shows "replace_with False re_outer_space f prev (S @ t) =
           S @ replace_with False re_outer_space f (Some (last S)) t"
  using assms
proof (induction S arbitrary: prev rule: calm_from.induct)
  case 1
  then show ?case by simp
next
  case (2 c)
  then show ?case by (subst replace_with.simps) (simp add: exec_outer_gentle)
next
  case (3 c d S)
  have rest: "replace_with False re_outer_space f (Some c) ((d # S) @ t) =
      (d # S) @ replace_with False re_outer_space f (Some (last (d # S))) t"
    by (rule "3.IH") (use "3.prems" in simp_all)
  have "exec_at False re_outer_space prev (c # d # S @ t) = None"
  proof (cases "gentle c")
    case True
    then show ?thesis by (rule exec_outer_gentle)
  next
    case False
    with "3.prems" have c: "c = CHR '' ''" and d: "gentle d" and "prev \<noteq> None" by auto
    then obtain q where "prev = Some q" by auto
    with c d show ?thesis by (simp add: exec_outer_inner)
  qed
  with rest show ?case by (subst replace_with.simps) simp
qed

lemma outer_space_end:
  assumes "B = [] \<or> B = [LF] \<or> B = [LF, LF]"
  shows "replace_with False re_outer_space (\<lambda>m caps. []) (Some q) B = []"
proof -
  have 0: "replace_with False re_outer_space (\<lambda>m caps. []) (Some q') [] = []" for q'
    by (subst replace_with.simps) (simp add: exec_at_def re_outer_space_def Plus_def)
  have "exec_at False re_outer_space (Some q) [LF] = Some (1, [])"
    by (simp add: exec_at_def re_outer_space_def Plus_def space_facts)
  then have 1: "replace_with False re_outer_space (\<lambda>m caps. []) (Some q) [LF] = []"
    by (subst replace_with.simps) (simp add: 0 last_of_def)
  have "exec_at False re_outer_space (Some q) [LF, LF] = Some (2, [])"
    by (simp add: exec_at_def re_outer_space_def Plus_def space_facts)
  then have "replace_with False re_outer_space (\<lambda>m caps. []) (Some q) [LF, LF] = []"
    by (subst replace_with.simps) (simp add: 0 last_of_def)
  with assms 0 1 show ?thesis by auto
qed

lemma outer_space_padded:
  assumes "calm S" and "S \<noteq> []" and "A = [] \<or> A = [LF, LF]"
    and "B = [] \<or> B = [LF] \<or> B = [LF, LF]"
  shows "replace_all re_outer_space [] (A @ S @ B) = S"
proof -
  from assms(1,2) have cf: "calm_from S" and g: "gentle (hd S)"
    by (auto simp: calm_def split: list.splits)
  have mid: "replace_with False re_outer_space (\<lambda>m caps. []) p (S @ B) = S" if "p = None \<or> p = Some LF" for p
    using outer_space_mid [OF cf assms(2), of p "\<lambda>m caps. []" B] g that
    by (auto simp: outer_space_end [OF assms(4)])
  from assms(2) obtain e S' where S: "S = e # S'" by (cases S) auto
  with g have e: "\<not> is_space e" by (simp add: gentle_not_space)
  have "exec_at False re_outer_space None (LF # LF # e # S' @ B) = Some (2, [])"
    using e by (simp add: exec_at_def re_outer_space_def Plus_def space_facts)
  then have "replace_with False re_outer_space (\<lambda>m caps. []) None (LF # LF # S @ B) = S"
    unfolding S
    by (subst replace_with.simps) (simp add: last_of_def mid [unfolded S, simplified])
  with assms(3) mid [of None] show ?thesis
    unfolding replace_all_def expand_empty by auto
qed

text \<open>The lines, trimmed one by one.\<close>

lemma calm_is_dot: "calm_from s \<Longrightarrow> \<forall>c\<in>set s. is_dot c"
  by (induction s rule: calm_from.induct) (auto simp: gentle_is_dot space_is_dot)

lemma exec_line:
  assumes "calm_from s" and "s \<noteq> []"
  shows "exec_at True re_line None s = Some (length s, [Some s])"
proof -
  have "repeat 1 None is_dot None s
          (\<lambda>prev' rest'. case rest' of
              [] \<Rightarrow> Some (prev', rest', [None][0 := Some (take (length s - length rest') s)])
            | x # xs \<Rightarrow> if is_line_terminator x
                then Some (prev', rest', [None][0 := Some (take (length s - length rest') s)])
                else None) =
        Some (last_of None s, [], [Some s])"
    by (rule repeat_all) (use assms calm_is_dot in \<open>auto simp: Suc_le_eq\<close>)
  then show ?thesis
    by (simp add: exec_at_def re_line_def Plus_def cong: list.case_cong)
qed

lemma trim_ends:
  assumes "s \<noteq> []" and "\<not> is_space (hd s)" and "\<not> is_space (last s)"
  shows "trim s = s"
proof -
  from assms(1,2) have front: "dropWhile is_space s = s" by (cases s) auto
  from assms(1,3) have "dropWhile is_space (rev s) = rev s" by (cases "rev s") (auto simp: hd_rev)
  with front show ?thesis by (simp add: trim_def)
qed

lemma calm_ends:
  assumes "calm s" and "s \<noteq> []"
  shows "gentle (hd s)" "gentle (last s)"
proof -
  from assms show "gentle (hd s)" by (cases s) (auto simp: calm_def)
  from assms show "gentle (last s)" by (auto simp: calm_def intro: calm_from_last)
qed

lemma trim_calm: "calm s \<Longrightarrow> trim s = s"
proof (cases "s = []")
  case True
  then show ?thesis by (simp add: trim_def)
next
  case False
  assume "calm s"
  from calm_ends [OF this False] show ?thesis
    by (intro trim_ends False) (simp_all add: gentle_not_space)
qed

lemma trimLines_calm: "calm s \<Longrightarrow> trimLines s = s"
proof (cases "s = []")
  case True
  then show ?thesis
    unfolding trimLines_def
    by (subst replace_with.simps) (simp add: exec_at_def re_line_def Plus_def)
next
  case False
  assume p: "calm s"
  then have pf: "calm_from s" by (simp add: calm_def)
  have gl: "gentle (last s)" using pf False by (rule calm_from_last)
  have stop: "replace_with True re_line (\<lambda>m caps. trim m) (Some (last s)) [] = []"
    using gl
    by (subst replace_with.simps)
       (use space_facts in \<open>auto simp: exec_at_def re_line_def Plus_def gentle_def is_line_terminator_def\<close>)
  show ?thesis
    unfolding trimLines_def
    by (subst replace_with.simps)
       (simp add: exec_line [OF pf False] False last_of_def stop trim_calm [OF p])
qed

text \<open>The cleanup of a calm fragment between empty lines.\<close>

lemma padded_facts:
  assumes "calm S" and "A = [] \<or> A = [LF, LF]" and "B = [] \<or> B = [LF, LF]" and ne: "S \<noteq> []"
  shows "successively neat (A @ S @ B)"
    and "\<forall>c\<in>set (A @ S @ B). \<not> is_sentence_end c"
    and "\<forall>c\<in>set S. \<not> is_LF c"
proof -
  from assms(1) have cf: "calm_from S" by (simp add: calm_def)
  have chars: "\<not> harsh c" if "c \<in> set S" for c using cf that by (rule calm_from_chars)
  have lf: "\<not> is_sentence_end LF" by (simp add: is_sentence_end_def)
  from chars harsh_sentence_end lf assms(2,3)
  show "\<forall>c\<in>set (A @ S @ B). \<not> is_sentence_end c" by auto
  from chars harsh_LF show "\<forall>c\<in>set S. \<not> is_LF c" by blast
  have nS: "successively neat S"
    using assms(1) by (auto simp: calm_def intro: calm_from_neat)
  have nl: "neat LF LF" by (simp add: neat_def is_blank_def space_no_letter)
  have into: "neat LF (hd S)" if "S \<noteq> []"
    using calm_ends(1) [OF assms(1) that] gentle_not_blank
    by (simp add: neat_def space_no_letter is_blank_def)
  have out: "neat (last S) LF" if "S \<noteq> []"
    using calm_ends(2) [OF assms(1) that] gentle_not_blank gentle_not_LF(1)
    by (auto simp: neat_def space_no_letter)
  from assms(2,3) nS nl into [OF ne] out [OF ne] ne show "successively neat (A @ S @ B)"
    by (auto simp: successively_append_iff successively_Cons)
qed

lemma must_sentence_end:
  "must is_sentence_end re_sentence_capital" "must is_sentence_end re_punctuation"
  by (simp_all add: re_sentence_capital_def re_punctuation_def)

text \<open>
  The end of a table row: a pipe at the end of the fragment takes one newline from the
  two that follow it.
\<close>

lemma must_pipe: "must (\<lambda>c. c = CHR ''|'') re_row_end"
  by (simp add: re_row_end_def)

lemma expand_row_end: "expand ''|\<newline>'' = (\<lambda>m caps. ''|\<newline>'')"
  by (simp add: fun_eq_iff)

lemma exec_row_start: "c \<noteq> CHR ''|'' \<Longrightarrow> exec_at ml re_row_end p (c # u) = None"
  by (simp add: exec_at_def re_row_end_def)

lemma exec_row_inner:
  "\<not> is_space d \<Longrightarrow> exec_at ml re_row_end p (c # d # u) = None"
  "\<not> is_space e \<Longrightarrow> exec_at ml re_row_end p (c # CHR '' '' # e # u) = None"
  using space_facts(1)
  by (auto simp: exec_at_def re_row_end_def Star_def space_facts)

lemma row_end_mid:
  assumes "calm_from S" and "S \<noteq> []" and "B = [] \<or> B = [LF, LF]"
  shows "\<exists>B'. (B' = [] \<or> B' = [LF] \<or> B' = [LF, LF]) \<and>
           replace_with False re_row_end (\<lambda>m caps. ''|\<newline>'') p (S @ B) = S @ B'"
  using assms(1,2)
proof (induction S arbitrary: p rule: calm_from.induct)
  case 1
  then show ?case by simp
next
  case (2 c)
  have B: "replace_with False re_row_end (\<lambda>m caps. ''|\<newline>'') q B = B" for q
    by (rule replace_untouched [OF must_pipe]) (use assms(3) in auto)
  have 0: "replace_with False re_row_end (\<lambda>m caps. ''|\<newline>'') q [] = []" for q
    by (subst replace_with.simps) (simp add: exec_at_def re_row_end_def)
  show ?case
  proof (cases "c = CHR ''|''")
    case False
    then have "replace_with False re_row_end (\<lambda>m caps. ''|\<newline>'') p ([c] @ B) = [c] @ B"
      by (subst replace_with.simps) (simp add: exec_row_start B)
    with assms(3) show ?thesis by blast
  next
    case True
    from assms(3) show ?thesis
    proof
      assume "B = []"
      moreover have "exec_at False re_row_end p [CHR ''|''] = None"
        by (simp add: exec_at_def re_row_end_def Star_def)
      ultimately have "replace_with False re_row_end (\<lambda>m caps. ''|\<newline>'') p ([c] @ B) = [c] @ []"
        using True by (subst replace_with.simps) (simp add: 0)
      then show ?thesis by blast
    next
      assume b: "B = [LF, LF]"
      have "exec_at False re_row_end p [CHR ''|'', LF, LF] = Some (3, [])"
        by (simp add: exec_at_def re_row_end_def Star_def space_facts)
      with True b have "replace_with False re_row_end (\<lambda>m caps. ''|\<newline>'') p ([c] @ B) = [c] @ [LF]"
        by (subst replace_with.simps) (simp add: 0 last_of_def)
      then show ?thesis by blast
    qed
  qed
next
  case (3 c d S)
  from "3.IH" [of "Some c"] "3.prems" obtain B' where
    B': "B' = [] \<or> B' = [LF] \<or> B' = [LF, LF]"
    and rest: "replace_with False re_row_end (\<lambda>m caps. ''|\<newline>'') (Some c) ((d # S) @ B) = (d # S) @ B'"
    by auto
  have "exec_at False re_row_end p (c # d # S @ B) = None"
  proof (cases "is_space d")
    case False
    then show ?thesis by (rule exec_row_inner(1))
  next
    case True
    from "3.prems" have "calm_from (d # S)" by simp
    with True obtain e S' where d: "d = CHR '' ''" and S: "S = e # S'" and e: "gentle e"
      by (cases S) (auto simp: gentle_not_space)
    from e have "\<not> is_space e" by (rule gentle_not_space)
    then show ?thesis unfolding d S by (simp add: exec_row_inner(2))
  qed
  with rest have "replace_with False re_row_end (\<lambda>m caps. ''|\<newline>'') p ((c # d # S) @ B) = (c # d # S) @ B'"
    by (subst replace_with.simps) simp
  with B' show ?case by blast
qed

lemma row_end_padded:
  assumes "calm_from S" and "S \<noteq> []" and "A = [] \<or> A = [LF, LF]" and "B = [] \<or> B = [LF, LF]"
  shows "\<exists>B'. (B' = [] \<or> B' = [LF] \<or> B' = [LF, LF]) \<and>
           replace_all re_row_end ''|\<newline>'' (A @ S @ B) = A @ S @ B'"
proof -
  have "replace_with False re_row_end (\<lambda>m caps. ''|\<newline>'') None (A @ S @ B) =
      A @ replace_with False re_row_end (\<lambda>m caps. ''|\<newline>'') (last_of None A) (S @ B)"
    by (rule replace_skip) (use assms(3) in \<open>auto simp: exec_row_start\<close>)
  with row_end_mid [OF assms(1,2,4), of "last_of None A"] show ?thesis
    unfolding replace_all_def expand_row_end by auto
qed

lemma cleanup_padded:
  assumes "calm S" and "S \<noteq> []" and "A = [] \<or> A = [LF, LF]" and "B = [] \<or> B = [LF, LF]"
  shows "cleanup m (A @ S @ B) = S"
proof -
  note f = padded_facts [OF assms(1,3,4,2)]
  from assms(1) have cf: "calm_from S" by (simp add: calm_def)
  let ?W = "A @ S @ B"
  have 1: "replace_all re_newlines4 t ?W = ?W" for t
    unfolding replace_all_def re_newlines4_def
    by (rule runs_kept [OF _ assms(2) f(3) assms(3,4)]) simp
  have 2: "replace_all re_blanks_newline t ?W = ?W" for t
    unfolding replace_all_def by (rule neat_untouched [OF f(1)])
  have 3: "replace_all re_newline_blanks t ?W = ?W" for t
    unfolding replace_all_def by (rule neat_untouched [OF f(1)])
  have 4: "replace_all re_blanks2 t ?W = ?W" for t
    unfolding replace_all_def by (rule neat_untouched [OF f(1)])
  have 5: "replace_all re_sentence_capital t ?W = ?W" for t
    unfolding replace_all_def by (rule replace_untouched [OF must_sentence_end(1) f(2)])
  have 6: "replace_all re_camel t ?W = ?W" for t
    unfolding replace_all_def by (rule neat_untouched [OF f(1)])
  have 7: "replace_all re_punctuation t ?W = ?W" for t
    unfolding replace_all_def by (rule replace_untouched [OF must_sentence_end(2) f(2)])
  have 8: "replace_all re_newlines3 t ?W = ?W" for t
    unfolding replace_all_def re_newlines3_def
    by (rule runs_kept [OF _ assms(2) f(3) assms(3,4)]) simp
  from row_end_padded [OF cf assms(2,3,4)] obtain B' where
    B': "B' = [] \<or> B' = [LF] \<or> B' = [LF, LF]"
    and 9: "replace_all re_row_end ''|\<newline>'' ?W = A @ S @ B'"
    by blast
  have 10: "replace_all re_outer_space [] (A @ S @ B') = S"
    by (rule outer_space_padded [OF assms(1,2,3) B'])
  have rest: "replace_all r t S = S" if "must harsh r" for r t
    unfolding replace_all_def by (rule calm_untouched [OF that cf])
  from assms(1) have "successively (single CHR ''*'') S"
    by (simp add: calm_def steady_single)
  note stars = stars_untouched [OF this]
  show ?thesis
    by (simp add: cleanup_def cleanupPasses_def notionPasses_def chain_def
        1 2 3 4 5 6 7 8 9 10 rest must_harsh stars trimLines_calm [OF assms(1)])
qed

lemma cleanup_calm: "calm x \<Longrightarrow> cleanup m x = x"
proof (cases "x = []")
  case True
  have "cleanup True [] = []" "cleanup False [] = []" by code_simp+
  with True show ?thesis by (cases m) simp_all
next
  case False
  assume "calm x"
  from cleanup_padded [OF this False, of "[]" "[]" m] show ?thesis by simp
qed

lemma cleanup_plain: "plain x \<Longrightarrow> cleanup m x = x"
  by (rule cleanup_calm) (rule plain_calm)

subsection \<open>Compact mode leaves no dollar sign\<close>

lemma exec_at_Chr:
  "exec_at ml (Chr c) prev s =
     (case s of [] \<Rightarrow> None | x # xs \<Rightarrow> if x = c then Some (1, []) else None)"
  by (simp add: exec_at_def split: list.splits)

lemma replace_Chr_removes:
  "c \<notin> set (replace_with ml (Chr c) (\<lambda>m caps. []) prev s)"
proof (induction s arbitrary: prev)
  case Nil
  show ?case by (subst replace_with.simps) (simp add: exec_at_Chr)
next
  case (Cons x xs)
  show ?case
    by (subst replace_with.simps) (simp add: exec_at_Chr Cons.IH)
qed

lemma replace_const_subset:
  "set (replace_with ml r (\<lambda>m caps. t) prev s) \<subseteq> set s \<union> set t"
proof (induction ml r "\<lambda>(m :: string) (caps :: captures). t" prev s rule: replace_with.induct)
  case (1 ml r prev s)
  show ?case
  proof (cases "exec_at ml r prev s")
    case None
    show ?thesis
    proof (cases s)
      case Nil
      with None show ?thesis by (subst replace_with.simps) simp
    next
      case (Cons c cs)
      with None 1(1) [OF None Cons] show ?thesis
        by (subst replace_with.simps) auto
    qed
  next
    case (Some a)
    obtain n caps where a: "a = (n, caps)" by (cases a)
    show ?thesis
    proof (cases "n = 0")
      case True
      show ?thesis
      proof (cases s)
        case Nil
        with Some a True show ?thesis by (subst replace_with.simps) simp
      next
        case (Cons c cs)
        with Some a True 1(2) [OF Some a [symmetric] True Cons] show ?thesis
          by (subst replace_with.simps) auto
      qed
    next
      case False
      have "set (drop n s) \<subseteq> set s" by (rule set_drop_subset)
      with Some a False 1(3) [OF Some a [symmetric] False] show ?thesis
        by (subst replace_with.simps) auto
    qed
  qed
qed

lemma expand_two_newlines: "expand ''\<newline>\<newline>'' = (\<lambda>m caps. ''\<newline>\<newline>'')"
  by (simp add: fun_eq_iff)

lemma cleanup_compact_no_dollar: "CHR ''$'' \<notin> set (cleanup True raw)"
proof -
  define x where "x = replace_all re_dollar2 [] (chain raw cleanupPasses)"
  define y where "y = replace_all re_dollar [] x"
  have y: "CHR ''$'' \<notin> set y"
    unfolding y_def replace_all_def re_dollar_def expand_empty by (rule replace_Chr_removes)
  have "set (replace_all re_newlines3 ''\<newline>\<newline>'' y) \<subseteq> set y \<union> set ''\<newline>\<newline>''"
    unfolding replace_all_def expand_two_newlines by (rule replace_const_subset)
  with y have "CHR ''$'' \<notin> set (replace_all re_newlines3 ''\<newline>\<newline>'' y)" by auto
  moreover have "cleanup True raw = replace_all re_newlines3 ''\<newline>\<newline>'' y"
    by (simp add: cleanup_def chain_def notionPasses_def x_def y_def)
  ultimately show ?thesis by simp
qed

text \<open>Math between dollar signs in a text node, from the text node to the result.\<close>

text \<open>White space of a text node.\<close>

lemma single_spaced_iff:
  "single_spaced s = (successively spaced s \<and> (s \<noteq> [] \<longrightarrow> \<not> is_space (last s)))"
  by (induction s rule: single_spaced.induct) (auto simp: spaced_def)

lemma calm_from_spaced: "calm_from s \<Longrightarrow> successively spaced s"
  by (induction s rule: calm_from.induct) (auto simp: spaced_def gentle_not_space)

lemma calm_from_char: "calm_from s \<Longrightarrow> c \<in> set s \<Longrightarrow> gentle c \<or> c = CHR '' ''"
  using calm_from_chars [of s c] by (auto simp: harsh_def)

lemma spaced_insert:
  assumes "successively spaced (u @ v)" and "\<not> is_space x"
    and "\<forall>c\<in>set u. \<not> is_space c \<or> c = CHR '' ''"
  shows "successively spaced (u @ x # v)"
proof -
  have "spaced (last u) x" if "u \<noteq> []"
    using assms(2,3) that last_in_set [of u] by (auto simp: spaced_def)
  moreover have "spaced x c" for c using assms(2) by (simp add: spaced_def)
  ultimately show ?thesis
    using assms(1) by (auto simp: successively_append_iff successively_Cons)
qed

lemma dollar_not_space: "\<not> is_space CHR ''$''"
  by (simp add: is_space_def in_range_def less_eq_char_def)

lemma exec_spaces_none: "\<not> is_space c \<Longrightarrow> exec_at ml re_spaces prev (c # t) = None"
  by (simp add: exec_at_def re_spaces_def Plus_def)

lemma exec_spaces_one:
  "\<not> is_space d \<Longrightarrow> exec_at ml re_spaces prev (CHR '' '' # d # t) = Some (1, [])"
  by (simp add: exec_at_def re_spaces_def Plus_def space_facts)

lemma expand_space: "expand '' '' = (\<lambda>m caps. '' '')"
  by (simp add: fun_eq_iff)

lemma collapse_single_spaced:
  "single_spaced s \<Longrightarrow> replace_with False re_spaces (\<lambda>m caps. '' '') prev s = s"
proof (induction s arbitrary: prev rule: single_spaced.induct)
  case 1
  show ?case by (subst replace_with.simps) (simp add: exec_at_def re_spaces_def Plus_def)
next
  case (2 c)
  then have "exec_at False re_spaces prev [c] = None" by (simp add: exec_spaces_none)
  moreover have "replace_with False re_spaces (\<lambda>m caps. '' '') (Some c) [] = []"
    by (subst replace_with.simps) (simp add: exec_at_def re_spaces_def Plus_def)
  ultimately show ?case by (subst replace_with.simps) simp
next
  case (3 c d t)
  from "3.prems" have tail: "single_spaced (d # t)" by simp
  show ?case
  proof (cases "is_space c")
    case False
    then have "exec_at False re_spaces prev (c # d # t) = None" by (rule exec_spaces_none)
    with "3.IH" [OF tail] show ?thesis by (subst replace_with.simps) simp
  next
    case True
    with "3.prems" have c: "c = CHR '' ''" and d: "\<not> is_space d" by auto
    from d have "exec_at False re_spaces prev (CHR '' '' # d # t) = Some (1, [])"
      by (rule exec_spaces_one)
    with "3.IH" [OF tail] c show ?thesis by (subst replace_with.simps) simp
  qed
qed

text \<open>The text  X $E$ Y.\<close>

lemma calm_parts:
  assumes "calm (X @ E @ Y)"
  shows "\<forall>c\<in>set (X @ E @ Y). gentle c \<or> c = CHR '' ''"
    and "\<forall>c\<in>set (X @ E @ Y). c \<noteq> CHR ''$''"
    and "\<forall>c\<in>set (X @ E @ Y). \<not> is_space c \<or> c = CHR '' ''"
proof -
  from assms have cf: "calm_from (X @ E @ Y)" by (simp add: calm_def)
  show 1: "\<forall>c\<in>set (X @ E @ Y). gentle c \<or> c = CHR '' ''"
    using calm_from_char [OF cf] by blast
  then show "\<forall>c\<in>set (X @ E @ Y). c \<noteq> CHR ''$''"
    by (auto simp: gentle_def)
  from 1 show "\<forall>c\<in>set (X @ E @ Y). \<not> is_space c \<or> c = CHR '' ''"
    using gentle_not_space by blast
qed

lemma inline_single_spaced:
  assumes "calm (X @ E @ Y)"
  shows "single_spaced (inlineText X E Y)" and "trim (inlineText X E Y) = inlineText X E Y"
proof -
  note p = calm_parts [OF assms]
  from assms have cf: "calm_from (X @ E @ Y)" by (simp add: calm_def)
  then have "successively spaced (X @ E @ Y)" by (rule calm_from_spaced)
  then have "successively spaced (X @ CHR ''$'' # E @ Y)"
    by (rule spaced_insert) (use p(3) dollar_not_space in auto)
  then have "successively spaced ((X @ CHR ''$'' # E) @ Y)" by simp
  then have "successively spaced ((X @ CHR ''$'' # E) @ CHR ''$'' # Y)"
    by (rule spaced_insert) (use p(3) dollar_not_space in auto)
  then have s: "successively spaced (inlineText X E Y)" by (simp add: inlineText_def)
  have l: "\<not> is_space (last (inlineText X E Y))"
  proof (cases "Y = []")
    case True
    then show ?thesis by (simp add: inlineText_def dollar_not_space)
  next
    case False
    then have "last (inlineText X E Y) = last (X @ E @ Y)" by (simp add: inlineText_def)
    moreover have "gentle (last (X @ E @ Y))" using cf False by (intro calm_from_last) simp_all
    ultimately show ?thesis by (simp add: gentle_not_space)
  qed
  have h: "\<not> is_space (hd (inlineText X E Y))"
  proof (cases "X = []")
    case True
    then show ?thesis by (simp add: inlineText_def dollar_not_space)
  next
    case False
    then have "hd (inlineText X E Y) = hd (X @ E @ Y)" by (simp add: inlineText_def)
    moreover have "gentle (hd (X @ E @ Y))" using assms False by (intro calm_ends(1)) simp_all
    ultimately show ?thesis by (simp add: gentle_not_space)
  qed
  from s l show "single_spaced (inlineText X E Y)" by (simp add: single_spaced_iff)
  show "trim (inlineText X E Y) = inlineText X E Y"
    by (rule trim_ends) (use h l in \<open>simp_all add: inlineText_def\<close>)
qed

lemma must_dollar:
  "must (\<lambda>c. c = CHR ''$'') re_block_math_group" "must (\<lambda>c. c = CHR ''$'') re_inline_math_group"
  by (simp_all add: re_block_math_group_def re_inline_math_group_def Plus_def)

lemma protectLaTeX_kept:
  assumes "successively (single CHR ''*'') s" and "successively (single CHR ''_'') s"
  shows "protectLaTeX s = s"
  by (simp add: protectLaTeX_def chain_def stars_untouched [OF assms(1)]
      unders_untouched [OF assms(2)])

lemma inline_singles:
  assumes "successively (single x) (X @ E @ Y)" and "x \<noteq> CHR ''$''"
  shows "successively (single x) (inlineText X E Y)"
proof -
  from assms have "successively (single x) (X @ CHR ''$'' # E @ Y)"
    by (intro single_insert) auto
  then have "successively (single x) ((X @ CHR ''$'' # E) @ Y)" by simp
  with assms(2) have "successively (single x) ((X @ CHR ''$'' # E) @ CHR ''$'' # Y)"
    by (intro single_insert) auto
  then show ?thesis by (simp add: inlineText_def)
qed

lemma block_singles:
  assumes "successively (single x) E" and "x \<noteq> CHR ''$''"
  shows "successively (single x) (blockText E)"
  using assms
  by (auto simp: blockText_def successively_append_iff successively_Cons single_def)

lemma search_reaches:
  assumes "\<And>p. exec_at ml r p u \<noteq> None"
  shows "search_from ml r prev (X @ u) \<noteq> None"
proof (induction X arbitrary: prev)
  case Nil
  from assms [of prev] show ?case by (cases u) auto
next
  case (Cons c X)
  from Cons [of "Some c"] show ?case by (auto split: option.splits)
qed

lemma exec_inline_math:
  assumes "\<forall>c\<in>set E. c \<noteq> CHR ''$''" and "E \<noteq> []"
  shows "exec_at False re_inline_math p (CHR ''$'' # E @ CHR ''$'' # Y) \<noteq> None"
proof -
  from assms(2) have len: "Suc 0 \<le> length E" by (cases E) auto
  show ?thesis
    using assms(1) len
    by (simp add: exec_at_def re_inline_math_def Plus_def repeat_run)
qed

lemma containsLaTeX_inline:
  assumes "\<forall>c\<in>set E. c \<noteq> CHR ''$''" and "E \<noteq> []"
  shows "containsLaTeX (inlineText X E Y)"
proof -
  have "search_from False re_inline_math None (X @ CHR ''$'' # E @ CHR ''$'' # Y) \<noteq> None"
    by (rule search_reaches) (rule exec_inline_math [OF assms])
  then have "test re_inline_math (inlineText X E Y)" by (simp add: test_def inlineText_def)
  then show ?thesis by (simp add: containsLaTeX_def latexPatterns_def)
qed

lemma exec_block_group:
  assumes "\<not> startsWith s ''$$''"
  shows "exec_at ml re_block_math_group prev s = None"
  using assms
  by (cases s; cases "tl s") (auto simp: exec_at_def re_block_math_group_def)

lemma no_block_untouched:
  assumes "successively (single CHR ''$'') s"
  shows "replace_with False re_block_math_group f prev s = s"
proof (rule replace_nowhere [where P = "successively (single CHR ''$'')"])
  fix u p
  assume "successively (single CHR ''$'') u"
  then have "\<not> startsWith u ''$$''" by (cases u; cases "tl u") (auto simp: single_def)
  then show "exec_at False re_block_math_group p u = None" by (rule exec_block_group)
next
  fix c u
  assume "successively (single CHR ''$'') (c # u)"
  then show "successively (single CHR ''$'') u" by (cases u) simp_all
qed (rule assms)

lemma no_dollar_successively:
  "\<forall>c\<in>set s. c \<noteq> CHR ''$'' \<Longrightarrow> successively (single CHR ''$'') s"
  by (induction s) (auto simp: single_def successively_Cons)

lemma inline_no_block:
  assumes "\<forall>c\<in>set (X @ E @ Y). c \<noteq> CHR ''$''" and "E \<noteq> []"
  shows "replace_all re_block_math_group t (inlineText X E Y) = inlineText X E Y"
proof -
  from assms(1) have "successively (single CHR ''$'') X"
    "successively (single CHR ''$'') E"
    "successively (single CHR ''$'') Y"
    by (simp_all add: no_dollar_successively)
  moreover from assms have "hd E \<noteq> CHR ''$''" "last E \<noteq> CHR ''$''" by auto
  then have "single CHR ''$'' CHR ''$'' (hd E)" "single CHR ''$'' (last E) CHR ''$''" by (simp_all add: single_def)
  moreover have "single CHR ''$'' (last X) CHR ''$''" if "X \<noteq> []"
    using assms(1) that last_in_set [of X] by (auto simp: single_def)
  moreover have "single CHR ''$'' CHR ''$'' (hd Y)" if "Y \<noteq> []"
    using assms(1) that hd_in_set [of Y] by (auto simp: single_def)
  ultimately have "successively (single CHR ''$'') (inlineText X E Y)"
    using assms(2)
    by (auto simp: inlineText_def successively_append_iff successively_Cons)
  then show ?thesis unfolding replace_all_def by (rule no_block_untouched)
qed

lemma exec_inline_start: "c \<noteq> CHR ''$'' \<Longrightarrow> exec_at ml re_inline_math_group p (c # u) = None"
  by (simp add: exec_at_def re_inline_math_group_def)

lemma exec_inline_group:
  assumes "\<forall>c\<in>set E. c \<noteq> CHR ''$''" and "E \<noteq> []"
  shows "exec_at False re_inline_math_group p (CHR ''$'' # E @ CHR ''$'' # Y) =
           Some (Suc (Suc (length E)), [Some E])"
proof -
  from assms(2) have len: "Suc 0 \<le> length E" by (cases E) auto
  show ?thesis
    using assms(1) len
    by (simp add: exec_at_def re_inline_math_group_def Plus_def repeat_run)
qed

lemma expand_group1: "expand ''$1'' m [Some E] = E"
  by (simp add: group_def is_digit_def in_range_def less_eq_char_def)

lemma expand_block: "expand ''\<newline>\<newline>$1\<newline>\<newline>'' m [Some E] = ''\<newline>\<newline>'' @ E @ ''\<newline>\<newline>''"
  by (simp add: group_def is_digit_def in_range_def less_eq_char_def)

lemma strip_inline:
  assumes "\<forall>c\<in>set (X @ E @ Y). c \<noteq> CHR ''$''" and "E \<noteq> []"
  shows "replace_all re_inline_math_group ''$1'' (inlineText X E Y) = X @ E @ Y"
proof -
  let ?f = "expand ''$1''"
  from assms(1) have E: "\<forall>c\<in>set E. c \<noteq> CHR ''$''" by simp
  have after: "replace_with False re_inline_math_group ?f p Y = Y" for p
    by (rule replace_untouched [OF must_dollar(2)]) (use assms(1) in simp)
  have at: "replace_with False re_inline_math_group ?f p (CHR ''$'' # E @ CHR ''$'' # Y) = E @ Y" for p
    by (subst replace_with.simps)
       (simp add: exec_inline_group [OF E assms(2)] expand_group1 after del: expand.simps)
  have "replace_with False re_inline_math_group ?f None (X @ CHR ''$'' # E @ CHR ''$'' # Y) =
      X @ replace_with False re_inline_math_group ?f (last_of None X) (CHR ''$'' # E @ CHR ''$'' # Y)"
    by (rule replace_skip) (use assms(1) in \<open>simp add: exec_inline_start\<close>)
  then show ?thesis by (simp add: replace_all_def inlineText_def at)
qed

lemma processText_inline:
  assumes "calm (X @ E @ Y)" and "E \<noteq> []" and "successively (single CHR ''_'') (X @ E @ Y)"
  shows "processText True (inlineText X E Y) = X @ E @ Y"
proof -
  note p = calm_parts [OF assms(1)]
  from p(2) have nd: "\<forall>c\<in>set (X @ E @ Y). c \<noteq> CHR ''$''" by blast
  then have ndE: "\<forall>c\<in>set E. c \<noteq> CHR ''$''" by simp
  have 1: "replace_all re_spaces '' '' (inlineText X E Y) = inlineText X E Y"
    unfolding replace_all_def expand_space
    by (rule collapse_single_spaced) (rule inline_single_spaced [OF assms(1)])
  have 2: "inlineText X E Y \<noteq> []" by (simp add: inlineText_def)
  from assms(1) have "successively (single CHR ''*'') (X @ E @ Y)"
    by (simp add: calm_def steady_single)
  then have 3: "protectLaTeX (inlineText X E Y) = inlineText X E Y"
    using assms(3) by (intro protectLaTeX_kept inline_singles) simp_all
  show ?thesis
    by (simp add: processText_def Let_def 1 2 3 inline_single_spaced(2) [OF assms(1)]
        containsLaTeX_inline [OF ndE assms(2)] chain_def inline_no_block [OF nd assms(2)]
        strip_inline [OF nd assms(2)])
qed

text \<open>The text  $$E$$.\<close>

lemma block_single_spaced:
  assumes "calm E" and "E \<noteq> []"
  shows "single_spaced (blockText E)" and "trim (blockText E) = blockText E"
proof -
  from assms(1) have cf: "calm_from E" by (simp add: calm_def)
  then have "successively spaced E" by (rule calm_from_spaced)
  moreover have "spaced CHR ''$'' c" "spaced (last E) CHR ''$''" for c
    using calm_from_last [OF cf assms(2)]
    by (simp_all add: spaced_def dollar_not_space gentle_not_space)
  ultimately have "successively spaced (blockText E)"
    using assms(2) by (auto simp: blockText_def successively_append_iff successively_Cons)
  then show "single_spaced (blockText E)"
    by (simp add: single_spaced_iff blockText_def dollar_not_space)
  show "trim (blockText E) = blockText E"
    by (rule trim_ends) (simp_all add: blockText_def dollar_not_space)
qed

lemma exec_block_math:
  assumes "\<forall>c\<in>set E. c \<noteq> CHR ''$''" and "E \<noteq> []"
  shows "exec_at False re_block_math p (blockText E) \<noteq> None"
    and "exec_at False re_block_math_group p (blockText E) = Some (length (blockText E), [Some E])"
proof -
  from assms(2) have len: "Suc 0 \<le> length E" by (cases E) auto
  show "exec_at False re_block_math p (blockText E) \<noteq> None"
    using assms(1) len
    by (simp add: exec_at_def re_block_math_def Plus_def blockText_def repeat_run)
  show "exec_at False re_block_math_group p (blockText E) = Some (length (blockText E), [Some E])"
    using assms(1) len
    by (simp add: exec_at_def re_block_math_group_def Plus_def blockText_def repeat_run)
qed

lemma containsLaTeX_block:
  assumes "\<forall>c\<in>set E. c \<noteq> CHR ''$''" and "E \<noteq> []"
  shows "containsLaTeX (blockText E)"
proof -
  have "blockText E = CHR ''$'' # CHR ''$'' # E @ ''$$''" by (simp add: blockText_def)
  with exec_block_math(1) [OF assms, of None] have "test re_block_math (blockText E)"
    by (auto simp: test_def split: option.splits)
  then show ?thesis by (simp add: containsLaTeX_def latexPatterns_def)
qed

lemma strip_block:
  assumes "\<forall>c\<in>set E. c \<noteq> CHR ''$''" and "E \<noteq> []"
  shows "replace_all re_block_math_group ''\<newline>\<newline>$1\<newline>\<newline>'' (blockText E) =
           ''\<newline>\<newline>'' @ E @ ''\<newline>\<newline>''"
proof -
  have stop: "replace_with False re_block_math_group f p [] = []" for f p
    by (subst replace_with.simps) (simp add: exec_at_def re_block_math_group_def)
  have ne: "blockText E \<noteq> []" by (simp add: blockText_def)
  show ?thesis
    unfolding replace_all_def
    by (subst replace_with.simps)
       (simp add: exec_block_math(2) [OF assms] ne stop expand_block del: expand.simps)
qed

lemma processText_block:
  assumes "calm E" and "E \<noteq> []" and "successively (single CHR ''_'') E"
  shows "processText True (blockText E) = ''\<newline>\<newline>'' @ E @ ''\<newline>\<newline>''"
proof -
  from assms(1) have cf: "calm_from E" by (simp add: calm_def)
  have nd: "\<forall>c\<in>set E. c \<noteq> CHR ''$''" using calm_from_chars [OF cf] harsh_chars(3) by blast
  have 1: "replace_all re_spaces '' '' (blockText E) = blockText E"
    unfolding replace_all_def expand_space
    by (rule collapse_single_spaced) (rule block_single_spaced [OF assms(1,2)])
  have 2: "blockText E \<noteq> []" by (simp add: blockText_def)
  from assms(1) have "successively (single CHR ''*'') E"
    by (simp add: calm_def steady_single)
  then have 3: "protectLaTeX (blockText E) = blockText E"
    using assms(3) by (intro protectLaTeX_kept block_singles) simp_all
  have 4: "replace_all re_inline_math_group t (''\<newline>\<newline>'' @ E @ ''\<newline>\<newline>'') =
      ''\<newline>\<newline>'' @ E @ ''\<newline>\<newline>''" for t
    unfolding replace_all_def
    by (rule replace_untouched [OF must_dollar(2)]) (use nd in auto)
  show ?thesis
    by (simp only: processText_def Let_def 1 2 3 block_single_spaced(2) [OF assms(1,2)]
        containsLaTeX_block [OF nd assms(2)] chain_def strip_block [OF nd assms(2)] 4
        foldl.simps simp_thms if_True if_False)
qed

lemma located_body:
  "findMainContent (page [Text T]) =
     Some \<lparr>path = [1], ancestorsOf = [el ''html'' []],
           previousOf = Some (Element (el ''head'' []) []),
           nodeOf = Element (el ''body'' []) [Text T]\<rparr>"
  "body (page [Text T]) =
     Some \<lparr>path = [1], ancestorsOf = [el ''html'' []],
           previousOf = Some (Element (el ''head'' []) []),
           nodeOf = Element (el ''body'' []) [Text T]\<rparr>"
  by code_simp+

lemma located_body_paragraph:
  "findMainContent (page [Element (el ''p'' []) [Text T]]) =
     Some \<lparr>path = [1], ancestorsOf = [el ''html'' []],
           previousOf = Some (Element (el ''head'' []) []),
           nodeOf = Element (el ''body'' []) [Element (el ''p'' []) [Text T]]\<rparr>"
  "body (page [Element (el ''p'' []) [Text T]]) =
     Some \<lparr>path = [1], ancestorsOf = [el ''html'' []],
           previousOf = Some (Element (el ''head'' []) []),
           nodeOf = Element (el ''body'' []) [Element (el ''p'' []) [Text T]]\<rparr>"
  by code_simp+

lemma body_not_skipped:
  "\<not> shouldSkipElement (Element (el ''body'' []) cs)"
  "\<not> shouldSkipElement (Element (el ''p'' []) cs)"
  by code_simp+

lemma body_passes_through:
  "formatElement h notionMode ancestors previousSibling (el ''body'' []) cs childrenMarkdown =
     Inr childrenMarkdown"
  by code_simp

lemma paragraph_format:
  "formatElement h notionMode ancestors previousSibling (el ''p'' []) cs childrenMarkdown =
     Inr (paragraphOf childrenMarkdown)"
proof -
  have "lowerTag (el ''p'' []) = ''p''" by code_simp
  then show ?thesis by (simp add: formatElement_def)
qed

lemma appendChild_first: "appendChild [] child r = r"
  by (simp add: appendChild_def)

lemma render_text_page:
  assumes "processText notionMode T = R"
  shows "render (page [Text T]) notionMode (findMainContent (page [Text T])) = Inr R"
  using assms
  by (simp add: render_def located_body body_not_skipped body_passes_through appendChild_first
      del: shouldSkipElement.simps)

lemma render_paragraph_page:
  assumes "processText notionMode T = R"
  shows "render (page [Element (el ''p'' []) [Text T]]) notionMode
           (findMainContent (page [Element (el ''p'' []) [Text T]])) = Inr (paragraphOf R)"
  using assms
  by (simp add: render_def located_body_paragraph body_not_skipped body_passes_through
      paragraph_format appendChild_first del: shouldSkipElement.simps)

lemma extract_text_page:
  assumes "processText notionMode T = R"
  shows "extractPageContent (page [Text T]) notionMode = Some (Inr (cleanup notionMode R))"
  by (rule extract_returns [OF render_text_page [OF assms]])
     (simp add: located_body sameNode_def)

lemma extract_paragraph_page:
  assumes "processText notionMode T = R"
  shows "extractPageContent (page [Element (el ''p'' []) [Text T]]) notionMode =
           Some (Inr (cleanup notionMode (paragraphOf R)))"
  by (rule extract_returns [OF render_paragraph_page [OF assms]])
     (simp add: located_body_paragraph sameNode_def)

lemma paragraphOf_calm:
  assumes "calm S" and "S \<noteq> []" and "A = [] \<or> A = [LF, LF]" and "B = [] \<or> B = [LF, LF]"
  shows "paragraphOf (A @ S @ B) = S @ [LF, LF]"
proof -
  from calm_ends [OF assms(1,2)] have e: "\<not> is_space (hd S)" "\<not> is_space (last S)"
    by (simp_all add: gentle_not_space)
  from assms(2,3) e(1) have front: "dropWhile is_space (A @ S @ B) = S @ B"
    by (cases S) (auto simp: space_facts)
  from assms(2) e(2) have "dropWhile is_space (rev S) = rev S"
    by (cases "rev S") (auto simp: hd_rev)
  with assms(4) have "dropWhile is_space (rev (S @ B)) = rev S" by (auto simp: space_facts)
  with front have "trim (A @ S @ B) = S" by (simp add: trim_def)
  with assms(2) show ?thesis by (simp add: paragraphOf_def)
qed

lemma extract_inline:
  assumes "calm (X @ E @ Y)" and "E \<noteq> []" and "successively (single CHR ''_'') (X @ E @ Y)"
  shows "extractPageContent (page [Text (inlineText X E Y)]) True = Some (Inr (X @ E @ Y))"
    and "extractPageContent (page [Element (el ''p'' []) [Text (inlineText X E Y)]]) True =
           Some (Inr (X @ E @ Y))"
proof -
  note t = processText_inline [OF assms]
  from assms(2) have ne: "X @ E @ Y \<noteq> []" by simp
  from extract_text_page [OF t] cleanup_calm [OF assms(1)]
  show "extractPageContent (page [Text (inlineText X E Y)]) True = Some (Inr (X @ E @ Y))"
    by simp
  have "paragraphOf (X @ E @ Y) = (X @ E @ Y) @ [LF, LF]"
    using paragraphOf_calm [OF assms(1) ne, of "[]" "[]"] by simp
  moreover have "cleanup True ((X @ E @ Y) @ [LF, LF]) = X @ E @ Y"
    using cleanup_padded [OF assms(1) ne, of "[]" "[LF, LF]" True] by simp
  ultimately show "extractPageContent (page [Element (el ''p'' []) [Text (inlineText X E Y)]]) True =
           Some (Inr (X @ E @ Y))"
    using extract_paragraph_page [OF t] by simp
qed

lemma extract_block:
  assumes "calm E" and "E \<noteq> []" and "successively (single CHR ''_'') E"
  shows "extractPageContent (page [Text (blockText E)]) True = Some (Inr E)"
    and "extractPageContent (page [Element (el ''p'' []) [Text (blockText E)]]) True = Some (Inr E)"
proof -
  note t = processText_block [OF assms]
  have c: "cleanup True ([LF, LF] @ E @ [LF, LF]) = E"
    by (rule cleanup_padded [OF assms(1,2)]) simp_all
  with extract_text_page [OF t]
  show "extractPageContent (page [Text (blockText E)]) True = Some (Inr E)" by simp
  have "paragraphOf ([LF, LF] @ E @ [LF, LF]) = E @ [LF, LF]"
    by (rule paragraphOf_calm [OF assms(1,2)]) simp_all
  moreover have "cleanup True (E @ [LF, LF]) = E"
    using cleanup_padded [OF assms(1,2), of "[]" "[LF, LF]" True] by simp
  ultimately show "extractPageContent (page [Element (el ''p'' []) [Text (blockText E)]]) True =
      Some (Inr E)"
    using extract_paragraph_page [OF t] by simp
qed

text \<open>
  Claim C6, as the code has it: in compact mode the extraction returns a string
  exactly when the located root is rendered without exception and no second attempt
  is due; the string is then the cleaned rendering, and it holds no dollar sign,
  whatever the document. The content between the delimiters is kept as the other
  passes leave it. Where the text around and inside single dollar signs is a calm
  fragment without two underscores in a row, the text node, alone in the body or in a
  paragraph of it, is returned as that fragment, with the content in its place; such
  a content between double dollar signs is returned as it is.
\<close>

theorem compact_output_has_no_dollar:
  "(extractPageContent doc True = Some (Inr s)) =
     (\<exists>raw. render doc True (findMainContent doc) = Inr raw \<and>
            \<not> (wordCount (cleanup True raw) < 3 \<and>
               \<not> sameNode (findMainContent doc) (body doc)) \<and>
            s = cleanup True raw) \<and>
   CHR ''$'' \<notin> set (cleanup True raw) \<and>
   (calm (X @ E @ Y) \<and> E \<noteq> [] \<and> successively (single CHR ''_'') (X @ E @ Y) \<longrightarrow>
      extractPageContent (page [Text (inlineText X E Y)]) True = Some (Inr (X @ E @ Y)) \<and>
      extractPageContent (page [Element (el ''p'' []) [Text (inlineText X E Y)]]) True =
        Some (Inr (X @ E @ Y))) \<and>
   (calm E \<and> E \<noteq> [] \<and> successively (single CHR ''_'') E \<longrightarrow>
      extractPageContent (page [Text (blockText E)]) True = Some (Inr E) \<and>
      extractPageContent (page [Element (el ''p'' []) [Text (blockText E)]]) True =
        Some (Inr E))"
proof (intro conjI impI)
  show "(extractPageContent doc True = Some (Inr s)) =
     (\<exists>raw. render doc True (findMainContent doc) = Inr raw \<and>
            \<not> (wordCount (cleanup True raw) < 3 \<and>
               \<not> sameNode (findMainContent doc) (body doc)) \<and>
            s = cleanup True raw)"
    by (rule extract_returns_iff)
  show "CHR ''$'' \<notin> set (cleanup True raw)" by (rule cleanup_compact_no_dollar)
next
  assume "calm (X @ E @ Y) \<and> E \<noteq> [] \<and> successively (single CHR ''_'') (X @ E @ Y)"
  then have a: "calm (X @ E @ Y)" "E \<noteq> []" "successively (single CHR ''_'') (X @ E @ Y)" by blast+
  show "extractPageContent (page [Text (inlineText X E Y)]) True = Some (Inr (X @ E @ Y))"
    by (rule extract_inline(1) [OF a])
  show "extractPageContent (page [Element (el ''p'' []) [Text (inlineText X E Y)]]) True =
        Some (Inr (X @ E @ Y))"
    by (rule extract_inline(2) [OF a])
next
  assume "calm E \<and> E \<noteq> [] \<and> successively (single CHR ''_'') E"
  then have a: "calm E" "E \<noteq> []" "successively (single CHR ''_'') E" by blast+
  show "extractPageContent (page [Text (blockText E)]) True = Some (Inr E)"
    by (rule extract_block(1) [OF a])
  show "extractPageContent (page [Element (el ''p'' []) [Text (blockText E)]]) True = Some (Inr E)"
    by (rule extract_block(2) [OF a])
qed

theorem compact_output_has_no_dollar_witness:
  "extractPageContent energyPage True = Some (Inr ''the energy k T is conserved'') \<and>
   render energyPage True (findMainContent energyPage) = Inr ''the energy kT is conserved'' \<and>
   cleanup True ''the energy kT is conserved'' = ''the energy k T is conserved'' \<and>
   CHR ''$'' \<notin> set (cleanup True ''the energy $kT$ is conserved'') \<and>
   calm (''the energy '' @ ''E_k = m * c^{2}'' @ '' is conserved'') \<and>
   extractPageContent
       (page [Text (inlineText ''the energy '' ''E_k = m * c^{2}'' '' is conserved'')]) True =
     Some (Inr (''the energy '' @ ''E_k = m * c^{2}'' @ '' is conserved'')) \<and>
   extractPageContent
       (page [Element (el ''p'' [])
                [Text (inlineText ''the energy '' ''E_k = m * c^{2}'' '' is conserved'')]]) True =
     Some (Inr (''the energy '' @ ''E_k = m * c^{2}'' @ '' is conserved'')) \<and>
   calm ''E_k = m * c^{2}'' \<and>
   extractPageContent (page [Text (blockText ''E_k = m * c^{2}'')]) True = Some (Inr ''E_k = m * c^{2}'') \<and>
   extractPageContent (page [Element (el ''p'' []) [Text (blockText ''E_k = m * c^{2}'')]]) True =
     Some (Inr ''E_k = m * c^{2}'')"
proof -
  have rendered: "render energyPage True (findMainContent energyPage) =
      Inr ''the energy kT is conserved''"
    by code_simp
  have cleaned: "cleanup True ''the energy kT is conserved'' = ''the energy k T is conserved''"
    by code_simp
  have enough: "\<not> (wordCount (cleanup True ''the energy kT is conserved'') < 3 \<and>
      \<not> sameNode (findMainContent energyPage) (body energyPage))"
    by code_simp
  have inline: "calm (''the energy '' @ ''E_k = m * c^{2}'' @ '' is conserved'') \<and>
      ''E_k = m * c^{2}'' \<noteq> [] \<and>
      successively (single CHR ''_'') (''the energy '' @ ''E_k = m * c^{2}'' @ '' is conserved'')"
    by code_simp
  have block: "calm ''E_k = m * c^{2}'' \<and> ''E_k = m * c^{2}'' \<noteq> [] \<and>
      successively (single CHR ''_'') ''E_k = m * c^{2}''"
    by code_simp
  note inst = compact_output_has_no_dollar [of energyPage "''the energy k T is conserved''"
      "''the energy $kT$ is conserved''" "''the energy ''" "''E_k = m * c^{2}''" "'' is conserved''"]
  from inst rendered cleaned enough have
    "extractPageContent energyPage True = Some (Inr ''the energy k T is conserved'')"
    by metis
  with inst rendered cleaned inline block show ?thesis by blast
qed

text \<open>
  Claim C6 as stated fails: the content \<open>kT\<close> of \<open>$kT$\<close> is not in the compact output,
  where the pass that separates a small letter from a capital has made it \<open>k T\<close>.
\<close>

theorem compact_content_is_rewritten:
  "extractPageContent energyPage True = Some (Inr ''the energy k T is conserved'') \<and>
   \<not> includes_str ''the energy k T is conserved'' ''kT''"
proof -
  have 1: "extractPageContent energyPage True = Some (Inr ''the energy k T is conserved'')"
    by (subst extractPageContent.simps) code_simp
  have 2: "\<not> includes_str ''the energy k T is conserved'' ''kT''" by code_simp
  from 1 2 show ?thesis by blast
qed

subsection \<open>Noise elements\<close>

lemma startsWith_map: "startsWith s p \<Longrightarrow> startsWith (map f s) (map f p)"
  by (induction s p rule: startsWith.induct) simp_all

lemma includes_str_map: "includes_str s p \<Longrightarrow> includes_str (map f s) (map f p)"
proof (induction s)
  case Nil
  then show ?case by simp
next
  case (Cons c cs)
  then show ?case using startsWith_map [of "c # cs" p f] by auto
qed

lemma skipClasses_lower_case: "\<forall>t\<in>set skipClasses. toLowerCase t = t"
  by code_simp

lemma noise_class_matches:
  assumes c: "c \<in> set (classList e)" and t: "t \<in> set skipClasses" and inc: "includes_str c t"
  shows "matchesVocabulary skipClasses e"
proof -
  from inc have "includes_str (toLowerCase c) (toLowerCase t)"
    unfolding toLowerCase_def by (rule includes_str_map)
  with t skipClasses_lower_case have "includes_str (toLowerCase c) t" by simp
  with c t show ?thesis
    unfolding matchesVocabulary_def list_ex_iff by blast
qed

text \<open>
  Claim C7, as the code has it: an element with a class name that contains a term of
  the generic vocabulary, or with the computed display \<open>none\<close>, is skipped; the
  transducer applied to it gives the empty string whatever its children are, so that
  they are not visited; and the loop over the children of its parent goes on with the
  Markdown it had before the element. Nothing more is said of the output of the
  extraction, where the text of the element can still stand.
\<close>

theorem noise_element_is_skipped:
  assumes "(\<exists>c\<in>set (classList e). \<exists>t\<in>set skipClasses. includes_str c t) \<or> display e = ''none''"
  shows "shouldSkipElement (Element e cs) \<and>
         processNode h notionMode ancestors previousSibling (Element e cs) = Inr [] \<and>
         processChildren h notionMode ancestors previousSibling childrenMarkdown
             (Element e cs # rest) =
           processChildren h notionMode ancestors (Some (Element e cs)) childrenMarkdown rest"
proof -
  from assms have skip: "shouldSkipElement (Element e cs)"
  proof
    assume "\<exists>c\<in>set (classList e). \<exists>t\<in>set skipClasses. includes_str c t"
    then have "matchesVocabulary skipClasses e" by (blast intro: noise_class_matches)
    then show ?thesis by simp
  next
    assume "display e = ''none''"
    then show ?thesis by simp
  qed
  then have empty: "processNode h notionMode ancestors previousSibling (Element e cs) = Inr []"
    by (simp only: processNode.simps if_True simp_thms)
  have "processChildren h notionMode ancestors previousSibling childrenMarkdown
             (Element e cs # rest) =
           processChildren h notionMode ancestors (Some (Element e cs)) childrenMarkdown rest"
    by (simp only: processChildren.simps empty bind_err_simps appendChild_def simp_thms if_False)
  with skip empty show ?thesis by blast
qed

theorem noise_element_is_skipped_witness:
  "shouldSkipElement navDiv \<and> processNode exampleHost False [] None navDiv = Inr [] \<and>
   processChildren exampleHost False [] None ''Title'' [navDiv, Text ''and text''] =
     processChildren exampleHost False [] (Some navDiv) ''Title'' [Text ''and text'']"
proof -
  have "\<exists>c\<in>set (classList (el ''div'' [(''class'', ''main-nav'')])).
          \<exists>t\<in>set skipClasses. includes_str c t"
    by code_simp
  then show ?thesis
    unfolding navDiv_def by (intro noise_element_is_skipped disjI1)
qed

text \<open>
  Claim C7 as stated fails: the text of a skipped element, a heading included, is in
  the output when the element stands inside a \<open>pre\<close> element, which copies the raw text
  of the whole block, and when the locator finds the root of the extraction inside
  the element: it tests the element it chooses, never the ancestors of it.
\<close>

theorem skipped_text_in_output:
  "shouldSkipElement (Element (el ''div'' [(''class'', ''toolbar'')])
                        [Element (el ''h2'' []) [Text ''Copy code'']]) \<and>
   extractPageContent (page [toolbarPre]) False =
     Some (Inr (fence @ ''\<newline>Copy codelet x = 1;\<newline>'' @ fence)) \<and>
   includes_str (fence @ ''\<newline>Copy codelet x = 1;\<newline>'' @ fence) ''Copy code'' \<and>
   shouldSkipElement
     (Element (el ''div'' [(''class'', ''sidebar'')])
        [Element (el ''article'' [])
           [Element (el ''h2'' []) [Text ''Hidden heading''],
            Element (el ''p'' []) [Text ''Some words are here'']]]) \<and>
   extractPageContent sidebarArticlePage False =
     Some (Inr ''## Hidden heading\<newline>\<newline>Some words are here'') \<and>
   extractPageContent sidebarArticlePage True =
     Some (Inr ''## Hidden heading\<newline>\<newline>Some words are here'')"
proof -
  have 1: "shouldSkipElement (Element (el ''div'' [(''class'', ''toolbar'')])
                        [Element (el ''h2'' []) [Text ''Copy code'']])" by code_simp
  have 2: "extractPageContent (page [toolbarPre]) False =
     Some (Inr (fence @ ''\<newline>Copy codelet x = 1;\<newline>'' @ fence))"
    by (subst extractPageContent.simps) code_simp
  have 3: "includes_str (fence @ ''\<newline>Copy codelet x = 1;\<newline>'' @ fence) ''Copy code''"
    by code_simp
  have 4: "shouldSkipElement
     (Element (el ''div'' [(''class'', ''sidebar'')])
        [Element (el ''article'' [])
           [Element (el ''h2'' []) [Text ''Hidden heading''],
            Element (el ''p'' []) [Text ''Some words are here'']]])" by code_simp
  have 5: "extractPageContent sidebarArticlePage False =
     Some (Inr ''## Hidden heading\<newline>\<newline>Some words are here'')"
    by (subst extractPageContent.simps) code_simp
  have 6: "extractPageContent sidebarArticlePage True =
     Some (Inr ''## Hidden heading\<newline>\<newline>Some words are here'')"
    by (subst extractPageContent.simps) code_simp
  from 1 2 3 4 5 6 show ?thesis by blast
qed

subsection \<open>Tables\<close>

text \<open>
  Claim C8, as the code has it: the table of two rows of two cells, with the cell texts
  a, b, c and d, gives two pipe-delimited data lines, one for each row, and one
  separator line of \<open>---\<close> cells, which stands right after the line of the first row.
\<close>

theorem table_two_rows:
  "\<exists>n tail.
     extractPageContent (page [table2x2]) False =
       Some (Inr (''| a | b |'' @ ''\<newline>'' @ ''|'' @ concat (replicate n '' --- |'') @
                  ''\<newline>'' @ ''| c | d |'' @ tail)) \<and>
     extractPageContent (page [table2x2]) True =
       Some (Inr (''| a | b |'' @ ''\<newline>'' @ ''|'' @ concat (replicate n '' --- |'') @
                  ''\<newline>'' @ ''| c | d |'' @ tail)) \<and>
     0 < n \<and> LF \<notin> set tail"
proof -
  have 1: "extractPageContent (page [table2x2]) False =
       Some (Inr (''| a | b |'' @ ''\<newline>'' @ ''|'' @ concat (replicate 3 '' --- |'') @
                  ''\<newline>'' @ ''| c | d |'' @ ''|''))"
    by (subst extractPageContent.simps) code_simp
  have 2: "extractPageContent (page [table2x2]) True =
       Some (Inr (''| a | b |'' @ ''\<newline>'' @ ''|'' @ concat (replicate 3 '' --- |'') @
                  ''\<newline>'' @ ''| c | d |'' @ ''|''))"
    by (subst extractPageContent.simps) code_simp
  have 3: "(0::nat) < 3 \<and> LF \<notin> set ''|''" by simp
  from 1 2 3 show ?thesis by blast
qed

text \<open>
  Claim C8 as stated fails: the output has three lines, not five, and its separator
  line is not \<open>| --- | --- |\<close>.
\<close>

theorem table_has_three_lines:
  "map_option (map_sum id (split_on LF)) (extractPageContent (page [table2x2]) False) =
     Some (Inr [''| a | b |'', ''| --- | --- | --- |'', ''| c | d ||'']) \<and>
   length [''| a | b |'', ''| --- | --- | --- |'', ''| c | d ||''] \<noteq> (5::nat) \<and>
   ''| --- | --- |'' \<notin> set [''| a | b |'', ''| --- | --- | --- |'', ''| c | d ||'']"
proof -
  have "extractPageContent (page [table2x2]) False =
      Some (Inr ''| a | b |\<newline>| --- | --- | --- |\<newline>| c | d ||'')"
    by (subst extractPageContent.simps) code_simp
  then show ?thesis by simp
qed

subsection \<open>Idempotence of the cleanup\<close>

text \<open>
  Claim C9, as the code has it: the cleanup reaches a fixed point after one pass on
  well-formed fragments: on every plain fragment, which it leaves unchanged, and on
  a list of representative fragments with headings, lists, a table, links, math and
  emphasis, in both modes.
\<close>

theorem cleanup_idempotent_on_fragments:
  "(\<forall>x\<in>set representativeFragments. \<forall>m. cleanup m (cleanup m x) = cleanup m x) \<and>
   (\<forall>x m. plain x \<longrightarrow> cleanup m (cleanup m x) = cleanup m x)"
proof -
  have compact: "\<forall>x\<in>set representativeFragments. cleanup True (cleanup True x) = cleanup True x"
    unfolding representativeFragments_def
    by (simp only: list.set ball_simps; intro conjI; code_simp)
  have delimited: "\<forall>x\<in>set representativeFragments. cleanup False (cleanup False x) = cleanup False x"
    unfolding representativeFragments_def
    by (simp only: list.set ball_simps; intro conjI; code_simp)
  have "\<forall>x\<in>set representativeFragments. \<forall>m. cleanup m (cleanup m x) = cleanup m x"
  proof (intro ballI allI)
    fix x m
    assume "x \<in> set representativeFragments"
    with compact delimited show "cleanup m (cleanup m x) = cleanup m x"
      by (cases m) simp_all
  qed
  moreover have "\<forall>x m. plain x \<longrightarrow> cleanup m (cleanup m x) = cleanup m x"
    by (simp add: cleanup_plain)
  ultimately show ?thesis by blast
qed

theorem cleanup_idempotent_on_fragments_witness:
  "cleanup False (cleanup False ''**two words** here'') = cleanup False ''**two words** here'' \<and>
   plain ''x^{2} is positive, as said'' \<and>
   cleanup True (cleanup True ''x^{2} is positive, as said'') =
     cleanup True ''x^{2} is positive, as said''"
proof -
  have 1: "''**two words** here'' \<in> set representativeFragments" by code_simp
  have 2: "plain ''x^{2} is positive, as said''" by code_simp
  from cleanup_idempotent_on_fragments 1 2 show ?thesis by blast
qed

text \<open>
  Claim C9 as stated fails: removing the link with the empty target from
  \<open>[Home]()About\<close> leaves \<open>HomeAbout\<close>, which a second cleanup splits into two words.
\<close>

theorem cleanup_not_idempotent:
  "cleanup False ''[Home]()About'' = ''HomeAbout'' \<and>
   cleanup False (cleanup False ''[Home]()About'') = ''Home About'' \<and>
   cleanup False (cleanup False ''[Home]()About'') \<noteq> cleanup False ''[Home]()About''"
proof -
  have 1: "cleanup False ''[Home]()About'' = ''HomeAbout''" by code_simp
  have 2: "cleanup False ''HomeAbout'' = ''Home About''" by code_simp
  from 1 2 show ?thesis by simp
qed

end
